theory Spec2Isabelle
  imports Main "HOL-Library.Word"
begin

section \<open>Data model of the segmented buffer (src/Buffer/Buffer.hpp)\<close>

text \<open>
  A \<open>Block\<close> is one chunk handed out by the allocator. The chunk starts with the
  \<open>BlockBase\<close> header (the list link and the \<open>size_t id\<close>) and ends with
  \<open>char data[DATA_SIZE]\<close>. The model identifies a block by the address of its chunk
  (\<open>baddr\<close>); the list link is the position of the block in the list \<open>m_blocks\<close>.
  \<open>DATA_SIZE\<close> is \<open>allocator::REAL_SIZE - sizeof(BlockBase)\<close> and so depends on the
  allocator, which is not among the sources; every operation takes it as its first
  argument \<open>D\<close>. Sizes and offsets (\<open>size_t\<close>) are natural numbers: they count bytes
  of the buffer and stay far below \<open>2 ^ 64\<close>; where the code subtracts two pointers
  that a stale iterator could bring out of order, the wrap-around is written out
  (\<open>size_t_diff\<close>). The id of a block is a 64-bit word.

  A \<open>char *\<close> into a block is written as the pair of the block's address and the offset
  from \<open>data\<close> (between \<open>0\<close> and \<open>D\<close>, the latter being \<open>Block::end()\<close>). Chunks
  do not overlap and the header is not empty, so two such pointers are equal exactly when
  both components are, and they compare like the pairs do lexicographically.
\<close>

type_synonym byte = "8 word"
type_synonym addr = nat

record block =
  baddr :: addr
  bid :: "64 word"
  bdata :: "byte list"

text \<open>
  An iterator holds \<open>m_block\<close> and \<open>m_position\<close>; the latter is kept as the offset inside
  \<open>m_block\<close>. Its link \<open>in_iters\<close> is its place in the buffer's list \<open>m_iterators\<close>,
  where every iterator object is named by a handle (the address of the C++ object).
\<close>

text \<open>
  Modelled from the spec: the intrusive list of \<open>Utils/rlist.h\<close> (absent). Blocks and
  iterators are kept in doubly-linked circular lists with a head; the model keeps the
  members in a HOL list, first member first. \<open>rlist_add(head, x)\<close> links \<open>x\<close> right
  behind \<open>head\<close> (at the front of the list, or behind the member \<open>head\<close> is the link
  of), \<open>rlist_add_tail(head, x)\<close> right in front of it (at the tail of the list),
  \<open>rlist_splice_tail\<close> appends a whole list, and the entry computed from the head
  itself (the first entry of an empty list, the successor of the last member) is not a
  member.
\<close>

record iterator =
  m_block :: addr
  m_position :: nat

text \<open>
  While the buffer has no block, \<open>firstBlock()\<close> and \<open>lastBlock()\<close> are the entry
  computed from the list head, that is the buffer object itself read as a \<open>Block\<close>,
  and \<open>m_begin\<close> and \<open>m_end\<close> are null pointers. \<open>begin()\<close> and \<open>end()\<close> then
  return an iterator of that entry. The model names the entry by the address
  \<open>list_head\<close>, which no chunk has, and keeps the \<open>m_position\<close> of such an iterator
  as its distance from the null pointer. What the entry has for \<open>id\<close> and \<open>data\<close>
  are fields of the buffer object and the memory behind it.
\<close>

definition list_head :: addr where
  "list_head = 0"

text \<open>
  \<open>m_begin\<close> is an offset inside the first block and \<open>m_end\<close> an offset inside the last
  block (both are null pointers while there is no block; the model keeps \<open>0\<close> then).
\<close>

record buffer =
  m_blocks :: "block list"
  m_iterators :: "(nat \<times> iterator) list"
  m_begin :: nat
  m_end :: nat

text \<open>
  What stops a run of the C++ code: the allocator throwing, a failed \<open>assert\<close> (the
  model is the debug build, \<open>NDEBUG\<close> undefined) and \<open>std::abort\<close>. The model also
  stops (\<open>OutOfRange\<close>) where the code reads or writes through a pointer that the
  model has no memory for: a dangling or a null pointer, and the fields that the entry
  computed from a list head has in place of the header of a \<open>Block\<close> or of an
  iterator. \<open>set\<close> and \<open>get\<close> step over the list head of the blocks like the code
  does.
\<close>

datatype error = OutOfMemory | AssertionFailed | Aborted | OutOfRange

subsection \<open>The allocator\<close>

text \<open>
  Modelled from the spec: the allocator (\<open>Utils/Mempool.hpp\<close> is absent). It is a
  fixed-size chunk allocator; \<open>allocate()\<close> returns a chunk or throws, \<open>deallocate()\<close>
  takes a chunk back and does not throw. The pool is the list of free chunks. A chunk
  comes with whatever its memory holds: \<open>new Block\<close> runs the empty constructor of
  \<open>BlockBase\<close>, which initialises neither \<open>id\<close> nor \<open>data\<close>.
\<close>

type_synonym allocator = "block list"

definition allocate :: "allocator \<Rightarrow> (block \<times> allocator) option" where
  "allocate pool = (case pool of [] \<Rightarrow> None | c # rest \<Rightarrow> Some (c, rest))"

definition deallocate :: "block \<Rightarrow> allocator \<Rightarrow> allocator" where
  "deallocate c pool = c # pool"

subsection \<open>Walking the block list\<close>

text \<open>
  \<open>blocks_from bs a\<close> is the block at address \<open>a\<close> followed by its successors
  (\<open>Block::next()\<close>), \<open>blocks_upto bs a\<close> the blocks in front of it; reversed, these
  are its predecessors, nearest first (\<open>Block::prev()\<close>). An empty \<open>blocks_from\<close>
  means that \<open>a\<close> is no block of the list.
\<close>

definition blocks_from :: "block list \<Rightarrow> addr \<Rightarrow> block list" where
  "blocks_from bs a = dropWhile (\<lambda>b. baddr b \<noteq> a) bs"

definition blocks_upto :: "block list \<Rightarrow> addr \<Rightarrow> block list" where
  "blocks_upto bs a = takeWhile (\<lambda>b. baddr b \<noteq> a) bs"

definition block_id :: "block list \<Rightarrow> addr \<Rightarrow> 64 word option" where
  "block_id bs a = (case blocks_from bs a of [] \<Rightarrow> None | b # _ \<Rightarrow> Some (bid b))"

text \<open>\<open>memcpy(data + pos, src, length src)\<close> inside one block.\<close>

definition write_at :: "byte list \<Rightarrow> nat \<Rightarrow> byte list \<Rightarrow> byte list" where
  "write_at d pos src = take pos d @ src @ drop (pos + length src) d"

text \<open>A difference of two \<open>char *\<close> converted to \<open>size_t\<close>.\<close>

definition size_t_diff :: "nat \<Rightarrow> nat \<Rightarrow> nat" where
  "size_t_diff a b = (if b \<le> a then a - b else 2 ^ 64 - (b - a))"

subsection \<open>Buffer::has\<close>

fun has_loop :: "nat \<Rightarrow> nat \<Rightarrow> block list \<Rightarrow> nat \<Rightarrow> error + bool" where
  "has_loop D e [] sz = Inl OutOfRange"
| "has_loop D e [b] sz = Inr (sz \<le> e)"
| "has_loop D e (b # b' # bs) sz =
     (if sz \<le> D then Inr True else has_loop D e (b' # bs) (sz - D))"

text \<open>
  For an iterator of the list head the bound that \<open>has\<close> compares the size with is
  a difference between the address of the buffer object and a pointer next to the null
  pointer: \<open>(size_t)(m_end - block->data)\<close> with \<open>m_end\<close> null while there is no
  block, \<open>m_block->end() - m_position\<close> once there are blocks. Both are of the order
  of an address, which no size of the model reaches, and \<open>has\<close> answers true. An
  iterator whose block is neither in the list nor the list head is dangling; its block
  is not the last block, the first bound \<open>m_block->end() - m_position\<close> is computed
  from the pointers alone, and only the step to the next block reads the chunk.
\<close>

definition has :: "nat \<Rightarrow> buffer \<Rightarrow> iterator \<Rightarrow> nat \<Rightarrow> error + bool" where
  "has D buf itr sz =
     (case blocks_from (m_blocks buf) (m_block itr) of
        [] \<Rightarrow>
          if m_block itr = list_head \<or> sz \<le> D - m_position itr then Inr True
          else Inl OutOfRange
      | [b] \<Rightarrow> has_loop D (m_end buf) [b] sz
      | b # b' # bs \<Rightarrow>
          (let have = D - m_position itr in
           if sz \<le> have then Inr True
           else has_loop D (m_end buf) (b' # bs) (sz - have)))"

subsection \<open>Buffer::getIOV\<close>

record iovec =
  iov_base :: "addr \<times> nat"
  iov_len :: nat

fun getIOV_loop :: "nat \<Rightarrow> nat \<Rightarrow> block list \<Rightarrow> nat \<Rightarrow> nat \<Rightarrow> iovec list" where
  "getIOV_loop D e [] pos n = []"
| "getIOV_loop D e (b # bs) pos 0 = []"
| "getIOV_loop D e (b # bs) pos (Suc n) =
     (if bs = [] then [\<lparr>iov_base = (baddr b, pos), iov_len = size_t_diff e pos\<rparr>]
      else \<lparr>iov_base = (baddr b, pos), iov_len = size_t_diff D pos\<rparr>
             # getIOV_loop D e bs 0 n)"

text \<open>
  The result is the number of entries used together with the entries written, that is
  \<open>vecs[0 .. vec_cnt)\<close>.
\<close>

definition getIOV :: "nat \<Rightarrow> buffer \<Rightarrow> iterator \<Rightarrow> nat \<Rightarrow> error + (nat \<times> iovec list)" where
  "getIOV D buf itr max_size =
     (case blocks_from (m_blocks buf) (m_block itr) of
        [] \<Rightarrow> Inl OutOfRange
      | bs \<Rightarrow> (let vecs = getIOV_loop D (m_end buf) bs (m_position itr) max_size
               in Inr (length vecs, vecs)))"

subsection \<open>Buffer::set and Buffer::get\<close>

text \<open>
  Both loops step with \<open>rlist_next_entry\<close> and never ask whether the entry they reach
  is a block. The list is circular: the successor of the last block is the list head,
  which is the member \<open>m_blocks\<close> of the buffer object, and the successor of the head
  is the first block. The entry computed from the head is the buffer object itself read
  as a \<open>Block\<close>; its \<open>data\<close> are the \<open>D\<close> bytes of memory that begin
  \<open>sizeof(BlockBase)\<close> bytes behind \<open>m_blocks\<close>, that is the link
  \<open>m_iterators.next\<close>, the fields \<open>m_begin\<close> and \<open>m_end\<close>, and what lies behind the
  buffer object. The model keeps these bytes in a byte list of their own, \<open>hmem\<close>,
  which \<open>set\<close> and \<open>get\<close> take beside the record and \<open>set\<close> returns beside it.
  A call of \<open>set\<close> that changes \<open>hmem\<close> has overwritten the fields named; the record
  it returns keeps them as they were, and what the memory then holds is to be read from
  its blocks and from the bytes returned with it. The iterator object and the array of
  the caller are taken to lie outside these bytes.

  \<open>ring bs hmem a\<close> lists the data areas in the order in which the loops meet them
  when they start in the block at address \<open>a\<close>; \<open>unring\<close> puts them back.
\<close>

definition ring :: "block list \<Rightarrow> byte list \<Rightarrow> addr \<Rightarrow> byte list list" where
  "ring bs hmem a = map bdata (blocks_from bs a) @ hmem # map bdata (blocks_upto bs a)"

definition put_data :: "block \<times> byte list \<Rightarrow> block" where
  "put_data x = (fst x)\<lparr>bdata := snd x\<rparr>"

definition unring :: "block list \<Rightarrow> addr \<Rightarrow> byte list list \<Rightarrow> block list \<times> byte list" where
  "unring bs a cells =
     (let k = length (blocks_from bs a)
      in (map put_data (zip (blocks_upto bs a) (drop (Suc k) cells))
            @ map put_data (zip (blocks_from bs a) (take k cells)),
          cells ! k))"

text \<open>
  One round of the loop of \<open>set\<close> through the ring: every step copies
  \<open>min(size, left_in_block)\<close> bytes and goes on to the next entry with \<open>left_in_block =
  DATA_SIZE\<close>. The result is the ring and the bytes not yet copied. With bytes left
  after a round the loop is at the block it started in again, at \<open>data\<close>.
\<close>

fun set_lap :: "nat \<Rightarrow> byte list list \<Rightarrow> nat \<Rightarrow> nat \<Rightarrow> byte list
    \<Rightarrow> byte list list \<times> byte list" where
  "set_lap D [] pos left src = ([], src)"
| "set_lap D (d # ds) pos left src =
     (if src = [] then (d # ds, [])
      else
        let copy_sz = min (length src) left in
        case set_lap D ds 0 D (drop copy_sz src) of
          (ds', rest) \<Rightarrow> (write_at d pos (take copy_sz src) # ds', rest))"

text \<open>
  With \<open>DATA_SIZE = 0\<close> no step copies anything and the loop never ends: \<open>None\<close>.
  \<open>Block\<close> excludes it by a \<open>static_assert\<close>, and \<open>set\<close> and \<open>get\<close> answer
  \<open>AssertionFailed\<close> then. With no byte to copy the loops are not entered. An
  iterator of the list head has a pointer next to the null pointer for \<open>m_position\<close>,
  and a dangling one points into a chunk that was given back: the model stops at a copy
  through either.
\<close>

function set_loop :: "nat \<Rightarrow> byte list list \<Rightarrow> nat \<Rightarrow> nat \<Rightarrow> byte list
    \<Rightarrow> byte list list option" where
  "set_loop D cells pos left src =
     (case set_lap D cells pos left src of
        (cells', rest) \<Rightarrow>
          if rest = [] then Some cells'
          else if D = 0 \<or> cells = [] then None
          else set_loop D cells' 0 D rest)"
  by pat_completeness auto
termination
proof (relation "measure (\<lambda>(D, cells, pos, left, src).
    2 * length src + (if left < D then 1 else 0))")
  show "wf (measure (\<lambda>(D, cells, pos, left, src).
    2 * length src + (if left < D then 1 else (0::nat))))"
    by simp
next
  fix D :: nat and cells :: "byte list list" and pos left :: nat and src :: "byte list"
    and cells' rest
  assume a: "(cells', rest) = set_lap D cells pos left src" "rest \<noteq> []"
    "\<not> (D = 0 \<or> cells = [])"
  have shrink: "length (snd (set_lap E cs p l s)) \<le> length s
      \<and> (cs \<noteq> [] \<and> 0 < l \<and> s \<noteq> [] \<longrightarrow> length (snd (set_lap E cs p l s)) < length s)"
    for E cs p l s
  proof (induction cs arbitrary: p l s)
    case Nil
    show ?case by simp
  next
    case (Cons d ds)
    have "length (snd (set_lap E ds 0 E (drop (min (length s) l) s)))
        \<le> length s - min (length s) l"
      using Cons.IH [of 0 E "drop (min (length s) l) s"] by simp
    then show ?case
      by (cases s) (auto simp: Let_def split: prod.splits)
  qed
  from a have r: "rest = snd (set_lap D cells pos left src)"
    by (metis snd_conv)
  from a r have "src \<noteq> []"
    by (cases cells) auto
  with a r shrink [of D cells pos left src]
  show "((D, cells', 0, D, rest), (D, cells, pos, left, src))
      \<in> measure (\<lambda>(D, cells, pos, left, src). 2 * length src + (if left < D then 1 else 0))"
    by (cases "left < D") auto
qed

declare set_loop.simps [simp del]

definition set_buf :: "nat \<Rightarrow> buffer \<Rightarrow> byte list \<Rightarrow> iterator \<Rightarrow> byte list
    \<Rightarrow> error + (buffer \<times> byte list)" where
  "set_buf D buf hmem itr src =
     (if src = [] then Inr (buf, hmem)
      else if blocks_from (m_blocks buf) (m_block itr) = [] then Inl OutOfRange
      else
        case set_loop D (ring (m_blocks buf) hmem (m_block itr))
               (m_position itr) (D - m_position itr) src of
          None \<Rightarrow> Inl AssertionFailed
        | Some cells \<Rightarrow>
            (case unring (m_blocks buf) (m_block itr) cells of
               (bs', hmem') \<Rightarrow> Inr (buf\<lparr>m_blocks := bs'\<rparr>, hmem')))"

text \<open>The loop of \<open>get\<close>: the bytes read in one round and the number still to read.\<close>

fun get_lap :: "nat \<Rightarrow> byte list list \<Rightarrow> nat \<Rightarrow> nat \<Rightarrow> nat \<Rightarrow> byte list \<times> nat" where
  "get_lap D [] pos left n = ([], n)"
| "get_lap D (d # ds) pos left n =
     (if n = 0 then ([], 0)
      else
        let copy_sz = min n left in
        case get_lap D ds 0 D (n - copy_sz) of
          (r, m) \<Rightarrow> (take copy_sz (drop pos d) @ r, m))"

function get_loop :: "nat \<Rightarrow> byte list list \<Rightarrow> nat \<Rightarrow> nat \<Rightarrow> nat \<Rightarrow> byte list option" where
  "get_loop D cells pos left n =
     (case get_lap D cells pos left n of
        (r, m) \<Rightarrow>
          if m = 0 then Some r
          else if D = 0 \<or> cells = [] then None
          else map_option (\<lambda>r'. r @ r') (get_loop D cells 0 D m))"
  by pat_completeness auto
termination
proof (relation "measure (\<lambda>(D, cells, pos, left, n).
    2 * n + (if left < D then 1 else 0))")
  show "wf (measure (\<lambda>(D, cells, pos, left, n).
    2 * n + (if left < D then 1 else (0::nat))))"
    by simp
next
  fix D :: nat and cells :: "byte list list" and pos left n :: nat
    and r m
  assume a: "(r, m) = get_lap D cells pos left n" "m \<noteq> 0"
    "\<not> (D = 0 \<or> cells = [])"
  have shrink: "snd (get_lap E cs p l k) \<le> k
      \<and> (cs \<noteq> [] \<and> 0 < l \<and> 0 < k \<longrightarrow> snd (get_lap E cs p l k) < k)"
    for E cs p l k
  proof (induction cs arbitrary: p l k)
    case Nil
    show ?case by simp
  next
    case (Cons d ds)
    have "snd (get_lap E ds 0 E (k - min k l)) \<le> k - min k l"
      using Cons.IH [of 0 E "k - min k l"] by simp
    then show ?case
      by (cases k) (auto simp: Let_def split: prod.splits)
  qed
  from a have r: "m = snd (get_lap D cells pos left n)"
    by (metis snd_conv)
  from a r have "0 < n"
    by (cases cells; cases n) auto
  with a r shrink [of D cells pos left n]
  show "((D, cells, 0, D, m), (D, cells, pos, left, n))
      \<in> measure (\<lambda>(D, cells, pos, left, n). 2 * n + (if left < D then 1 else 0))"
    by (cases "left < D") auto
qed

declare get_loop.simps [simp del]

definition get_buf :: "nat \<Rightarrow> buffer \<Rightarrow> byte list \<Rightarrow> iterator \<Rightarrow> nat \<Rightarrow> error + byte list" where
  "get_buf D buf hmem itr sz =
     (if sz = 0 then Inr []
      else if blocks_from (m_blocks buf) (m_block itr) = [] then Inl OutOfRange
      else
        case get_loop D (ring (m_blocks buf) hmem (m_block itr))
               (m_position itr) (D - m_position itr) sz of
          None \<Rightarrow> Inl AssertionFailed
        | Some r \<Rightarrow> Inr r)"


section \<open>Iterators\<close>

subsection \<open>Comparison\<close>

text \<open>
  \<open>operator ==\<close> compares \<open>m_position\<close> only, \<open>operator <\<close> compares the pairs
  \<open>(m_block->id, m_position)\<close>. Reading the id of a block that is not in the list is
  a read through a dangling pointer: \<open>None\<close>.
\<close>

definition ptr_less :: "iterator \<Rightarrow> iterator \<Rightarrow> bool" where
  "ptr_less a b \<longleftrightarrow>
     m_block a < m_block b \<or> (m_block a = m_block b \<and> m_position a < m_position b)"

definition iterator_eq :: "iterator \<Rightarrow> iterator \<Rightarrow> bool" where
  "iterator_eq a b \<longleftrightarrow> m_block a = m_block b \<and> m_position a = m_position b"

definition iterator_less :: "block list \<Rightarrow> iterator \<Rightarrow> iterator \<Rightarrow> bool option" where
  "iterator_less bs a b =
     (case (block_id bs (m_block a), block_id bs (m_block b)) of
        (Some ia, Some ib) \<Rightarrow> Some (ia < ib \<or> (ia = ib \<and> ptr_less a b))
      | _ \<Rightarrow> None)"

subsection \<open>The list of iterators\<close>

definition iters_from :: "(nat \<times> iterator) list \<Rightarrow> nat \<Rightarrow> (nat \<times> iterator) list" where
  "iters_from its h = dropWhile (\<lambda>x. fst x \<noteq> h) its"

definition iters_upto :: "(nat \<times> iterator) list \<Rightarrow> nat \<Rightarrow> (nat \<times> iterator) list" where
  "iters_upto its h = takeWhile (\<lambda>x. fst x \<noteq> h) its"

text \<open>The constructor used by \<open>begin()\<close> and \<open>end()\<close>, and \<open>unlink\<close>.\<close>

definition new_iterator :: "buffer \<Rightarrow> nat \<Rightarrow> iterator \<Rightarrow> bool \<Rightarrow> buffer" where
  "new_iterator buf h itr is_head =
     (if is_head then buf\<lparr>m_iterators := (h, itr) # m_iterators buf\<rparr>
      else buf\<lparr>m_iterators := m_iterators buf @ [(h, itr)]\<rparr>)"

definition unlink :: "buffer \<Rightarrow> nat \<Rightarrow> buffer" where
  "unlink buf h = buf\<lparr>m_iterators := filter (\<lambda>x. fst x \<noteq> h) (m_iterators buf)\<rparr>"

text \<open>
  \<open>Buffer::begin\<close> and \<open>Buffer::end\<close>. On a buffer without blocks they return an
  iterator of the list head.
\<close>

definition begin_it :: "buffer \<Rightarrow> nat \<Rightarrow> error + buffer" where
  "begin_it buf h =
     (case m_blocks buf of
        [] \<Rightarrow> Inr (new_iterator buf h \<lparr>m_block = list_head, m_position = m_begin buf\<rparr> True)
      | b # _ \<Rightarrow> Inr (new_iterator buf h \<lparr>m_block = baddr b, m_position = m_begin buf\<rparr> True))"

definition end_it :: "buffer \<Rightarrow> nat \<Rightarrow> error + buffer" where
  "end_it buf h =
     (case m_blocks buf of
        [] \<Rightarrow> Inr (new_iterator buf h \<lparr>m_block = list_head, m_position = m_end buf\<rparr> False)
      | _ \<Rightarrow> Inr (new_iterator buf h
                   \<lparr>m_block = baddr (last (m_blocks buf)), m_position = m_end buf\<rparr> False))"

subsection \<open>moveForward, moveBackward, adjustPositionForward, operator +=\<close>

fun moveForward_loop :: "nat \<Rightarrow> block list \<Rightarrow> nat \<Rightarrow> nat \<Rightarrow> error + iterator" where
  "moveForward_loop D [] pos step = Inl OutOfRange"
| "moveForward_loop D (b # bs) pos step =
     (if step > D - pos then moveForward_loop D bs 0 (step - (D - pos))
      else Inr \<lparr>m_block = baddr b, m_position = pos + step\<rparr>)"

text \<open>
  For an iterator of the list head \<open>m_block->end() - m_position\<close> is of the order of
  an address again: the assertion holds, the loop is not entered and the step is added
  to \<open>m_position\<close>. A dangling iterator moves inside its chunk without a read of the
  chunk; the step to the next block reads it.
\<close>

definition moveForward :: "nat \<Rightarrow> block list \<Rightarrow> iterator \<Rightarrow> nat \<Rightarrow> error + iterator" where
  "moveForward D bs itr step =
     (if blocks_from bs (m_block itr) = [] \<and> m_block itr = list_head
      then Inr (itr\<lparr>m_position := m_position itr + step\<rparr>)
      else if D < m_position itr then Inl AssertionFailed
      else if blocks_from bs (m_block itr) = [] \<and> step \<le> D - m_position itr
      then Inr (itr\<lparr>m_position := m_position itr + step\<rparr>)
      else moveForward_loop D (blocks_from bs (m_block itr)) (m_position itr) step)"

fun moveBackward_loop :: "nat \<Rightarrow> addr \<Rightarrow> block list \<Rightarrow> nat \<Rightarrow> nat \<Rightarrow> error + iterator" where
  "moveBackward_loop D a [] pos step =
     (if step \<ge> pos then Inl OutOfRange
      else Inr \<lparr>m_block = a, m_position = pos - step\<rparr>)"
| "moveBackward_loop D a (p # ps) pos step =
     (if step \<ge> pos then moveBackward_loop D (baddr p) ps D (step - pos)
      else Inr \<lparr>m_block = a, m_position = pos - step\<rparr>)"

text \<open>
  For an iterator of the list head \<open>m_block->begin()\<close> lies behind \<open>m_position\<close> and
  the assertion of \<open>moveBackward\<close> fails. A dangling iterator moves inside its chunk;
  the step to the block in front reads the chunk.
\<close>

definition moveBackward :: "nat \<Rightarrow> block list \<Rightarrow> iterator \<Rightarrow> nat \<Rightarrow> error + iterator" where
  "moveBackward D bs itr step =
     (if blocks_from bs (m_block itr) = [] then
        (if m_block itr = list_head then Inl AssertionFailed
         else moveBackward_loop D (m_block itr) [] (m_position itr) step)
      else moveBackward_loop D (m_block itr) (rev (blocks_upto bs (m_block itr)))
             (m_position itr) step)"

text \<open>
  \<open>adjust_walk bs this xs\<close>: \<open>xs\<close> starts at \<open>itr = this->next()\<close>; the result splits
  \<open>xs\<close> after the iterator behind which \<open>this\<close> is linked again.
\<close>

fun adjust_walk :: "block list \<Rightarrow> iterator \<Rightarrow> (nat \<times> iterator) list
    \<Rightarrow> error + ((nat \<times> iterator) list \<times> (nat \<times> iterator) list)" where
  "adjust_walk bs this [] = Inl OutOfRange"
| "adjust_walk bs this [x] = Inr ([x], [])"
| "adjust_walk bs this (x # y # r) =
     (case iterator_less bs (snd y) this of
        None \<Rightarrow> Inl OutOfRange
      | Some False \<Rightarrow> Inr ([x], y # r)
      | Some True \<Rightarrow>
          (case adjust_walk bs this (y # r) of
             Inl err \<Rightarrow> Inl err
           | Inr (p, q) \<Rightarrow> Inr (x # p, q)))"

definition adjustPositionForward :: "buffer \<Rightarrow> nat \<Rightarrow> error + buffer" where
  "adjustPositionForward buf h =
     (case iters_from (m_iterators buf) h of
        [] \<Rightarrow> Inl OutOfRange
      | [_] \<Rightarrow> Inr buf
      | (_, this) # nx # r \<Rightarrow>
          (case iterator_less (m_blocks buf) (snd nx) this of
             None \<Rightarrow> Inl OutOfRange
           | Some False \<Rightarrow> Inr buf
           | Some True \<Rightarrow>
               (case adjust_walk (m_blocks buf) this (nx # r) of
                  Inl err \<Rightarrow> Inl err
                | Inr (p, q) \<Rightarrow>
                    Inr (buf\<lparr>m_iterators :=
                          iters_upto (m_iterators buf) h @ p @ [(h, this)] @ q\<rparr>))))"

definition set_iterator :: "buffer \<Rightarrow> nat \<Rightarrow> iterator \<Rightarrow> buffer" where
  "set_iterator buf h itr =
     buf\<lparr>m_iterators := map (\<lambda>x. if fst x = h then (h, itr) else x) (m_iterators buf)\<rparr>"

definition iterator_add :: "nat \<Rightarrow> buffer \<Rightarrow> nat \<Rightarrow> nat \<Rightarrow> error + buffer" where
  "iterator_add D buf h step =
     (case map_of (m_iterators buf) h of
        None \<Rightarrow> Inl OutOfRange
      | Some itr \<Rightarrow>
          (case moveForward D (m_blocks buf) itr step of
             Inl err \<Rightarrow> Inl err
           | Inr itr' \<Rightarrow> adjustPositionForward (set_iterator buf h itr') h))"


section \<open>Growing and shrinking the buffer\<close>

subsection \<open>Buffer::appendBack\<close>

text \<open>
  The destructor of \<open>Blocks\<close> gives the blocks of the list back, the first one first.
\<close>

definition Blocks_dtor :: "block list \<Rightarrow> allocator \<Rightarrow> allocator" where
  "Blocks_dtor new_blocks pool = foldl (\<lambda>p b. deallocate b p) pool new_blocks"

text \<open>
  The allocation loop. \<open>newBlock\<close> links the chunk at the tail of \<open>new_blocks\<close>; when
  \<open>new Block\<close> throws, the stack is unwound and \<open>new_blocks\<close> is destroyed.
\<close>

function newBlocks :: "nat \<Rightarrow> allocator \<Rightarrow> block list \<Rightarrow> nat \<Rightarrow> nat \<Rightarrow> nat
    \<Rightarrow> (error + (block list \<times> nat \<times> nat)) \<times> allocator" where
  "newBlocks D pool new_blocks new_end sz left =
     (if sz > left then
        (case allocate pool of
           None \<Rightarrow> (Inl OutOfMemory, Blocks_dtor new_blocks pool)
         | Some (b, pool') \<Rightarrow> newBlocks D pool' (new_blocks @ [b]) 0 (sz - left) D)
      else (Inr (new_blocks, new_end, sz), pool))"
  by pat_completeness auto
termination
  by (relation "measure (\<lambda>(D, pool, new_blocks, new_end, sz, left). length pool)")
     (auto simp: allocate_def split: list.splits)

declare newBlocks.simps [simp del]

fun renumber :: "64 word \<Rightarrow> block list \<Rightarrow> block list" where
  "renumber i [] = []"
| "renumber i (b # bs) = b\<lparr>bid := i\<rparr> # renumber (i + 1) bs"

text \<open>
  Everything \<open>appendBack\<close> does before it constructs the iterator it returns. The result
  is the value of that iterator (or the error), the buffer and the allocator.
\<close>

definition appendBack_body :: "nat \<Rightarrow> allocator \<Rightarrow> buffer \<Rightarrow> nat
    \<Rightarrow> (error + iterator) \<times> buffer \<times> allocator" where
  "appendBack_body D pool buf sz =
     (if sz = 0 then (Inl AssertionFailed, buf, pool)
      else
        let is_first_alloc = (m_blocks buf = []);
            left_in_block = (if is_first_alloc then 0 else D - m_end buf)
        in case newBlocks D pool [] (m_end buf) sz left_in_block of
             (Inl err, pool') \<Rightarrow> (Inl err, buf, pool')
           | (Inr (new_blocks, new_end, sz'), pool') \<Rightarrow>
               (let last_id = (if is_first_alloc then 0 else bid (last (m_blocks buf)));
                    blocks' = renumber last_id (m_blocks buf) @ new_blocks
                in case blocks' of
                     [] \<Rightarrow> (Inl OutOfRange, buf, pool')
                   | b # _ \<Rightarrow>
                       if is_first_alloc then
                         (Inr \<lparr>m_block = baddr b, m_position = 0\<rparr>,
                          buf\<lparr>m_blocks := blocks', m_begin := 0, m_end := new_end + sz'\<rparr>,
                          pool')
                       else
                         (Inr \<lparr>m_block = baddr (last (m_blocks buf)),
                               m_position = m_end buf\<rparr>,
                          buf\<lparr>m_blocks := blocks', m_end := new_end + sz'\<rparr>,
                          pool')))"

definition appendBack :: "nat \<Rightarrow> allocator \<Rightarrow> buffer \<Rightarrow> nat \<Rightarrow> nat
    \<Rightarrow> (error + iterator) \<times> buffer \<times> allocator" where
  "appendBack D pool buf sz h =
     (case appendBack_body D pool buf sz of
        (Inl err, buf', pool') \<Rightarrow> (Inl err, buf', pool')
      | (Inr itr, buf', pool') \<Rightarrow> (Inr itr, new_iterator buf' h itr False, pool'))"

subsection \<open>Buffer::addBack\<close>

text \<open>
  The iterator \<open>itr\<close> is a local variable: it is linked at the tail of the iterator list
  and unlinked when the function returns, so the list is left as it was.
\<close>

definition addBack :: "nat \<Rightarrow> allocator \<Rightarrow> buffer \<Rightarrow> byte list \<Rightarrow> byte list
    \<Rightarrow> (error + nat) \<times> buffer \<times> byte list \<times> allocator" where
  "addBack D pool buf hmem src =
     (case appendBack_body D pool buf (length src) of
        (Inl err, buf', pool') \<Rightarrow> (Inl err, buf', hmem, pool')
      | (Inr itr, buf', pool') \<Rightarrow>
          (case set_buf D buf' hmem itr src of
             Inl err \<Rightarrow> (Inl err, buf', hmem, pool')
           | Inr (buf'', hmem') \<Rightarrow> (Inr (length src), buf'', hmem', pool')))"

subsection \<open>Buffer::dropBack and Buffer::dropFront\<close>

text \<open>
  \<open>dropBack_loop\<close> walks the blocks from the last one backwards (\<open>rbs\<close> is the reversed
  block list, the current \<open>block\<close> first). After \<open>delBlockAndPrev\<close> the variable
  \<open>block\<close> is the predecessor, and that is the block the debug check compares with.
  The checks at the end of \<open>dropBack\<close> and \<open>dropFront\<close> read the last entry of the
  iterator list without asking whether there is one; with no iterator the entry is
  computed from the list head, and the model takes its \<open>m_block\<close> to differ from
  \<open>block\<close>, so that the check on the iterator is skipped.
\<close>

fun dropBack_loop :: "nat \<Rightarrow> allocator \<Rightarrow> block list \<Rightarrow> (nat \<times> iterator) list
    \<Rightarrow> nat \<Rightarrow> nat \<Rightarrow> nat \<Rightarrow> error + (block list \<times> nat \<times> allocator)" where
  "dropBack_loop D pool [] its e sz left =
     (if sz > left then Inl AssertionFailed else Inr ([], e - sz, pool))"
| "dropBack_loop D pool [b] its e sz left =
     (if sz > left then Inl OutOfRange else Inr ([b], e - sz, pool))"
| "dropBack_loop D pool (b # p # rbs) its e sz left =
     (if sz > left then
        (if its \<noteq> [] \<and> m_block (snd (last its)) = baddr p then Inl AssertionFailed
         else dropBack_loop D (deallocate b pool) (p # rbs) its D (sz - left) D)
      else Inr (b # p # rbs, e - sz, pool))"

definition dropBack :: "nat \<Rightarrow> allocator \<Rightarrow> buffer \<Rightarrow> nat \<Rightarrow> error + (buffer \<times> allocator)" where
  "dropBack D pool buf sz =
     (if sz = 0 then Inl AssertionFailed
      else if m_blocks buf = [] then Inl AssertionFailed
      else
        case dropBack_loop D pool (rev (m_blocks buf)) (m_iterators buf)
               (m_end buf) sz (m_end buf) of
          Inl err \<Rightarrow> Inl err
        | Inr (rbs, e, pool') \<Rightarrow>
            (case rbs of
               [] \<Rightarrow> Inl OutOfRange
             | block # _ \<Rightarrow>
                 if m_iterators buf \<noteq> []
                    \<and> m_block (snd (last (m_iterators buf))) = baddr block
                    \<and> \<not> m_position (snd (last (m_iterators buf))) \<le> e
                 then Inl AssertionFailed
                 else if length rbs = 1 \<and> \<not> e \<ge> m_begin buf then Inl AssertionFailed
                 else Inr (buf\<lparr>m_blocks := rev rbs, m_end := e\<rparr>, pool')))"

fun dropFront_loop :: "nat \<Rightarrow> allocator \<Rightarrow> block list \<Rightarrow> (nat \<times> iterator) list
    \<Rightarrow> nat \<Rightarrow> nat \<Rightarrow> nat \<Rightarrow> error + (block list \<times> nat \<times> allocator)" where
  "dropFront_loop D pool [] its bg sz left =
     (if sz > left then Inl OutOfRange else Inr ([], bg + sz, pool))"
| "dropFront_loop D pool [b] its bg sz left =
     (if sz > left then
        (if its \<noteq> [] \<and> m_block (snd (hd its)) = baddr b then Inl AssertionFailed
         else Inl OutOfRange)
      else Inr ([b], bg + sz, pool))"
| "dropFront_loop D pool (b # n # bs) its bg sz left =
     (if sz > left then
        (if its \<noteq> [] \<and> m_block (snd (hd its)) = baddr b then Inl AssertionFailed
         else dropFront_loop D (deallocate b pool) (n # bs) its 0 (sz - left) D)
      else Inr (b # n # bs, bg + sz, pool))"

definition dropFront :: "nat \<Rightarrow> allocator \<Rightarrow> buffer \<Rightarrow> nat \<Rightarrow> error + (buffer \<times> allocator)" where
  "dropFront D pool buf sz =
     (if sz = 0 then Inl AssertionFailed
      else if m_blocks buf = [] then Inl AssertionFailed
      else
        case dropFront_loop D pool (m_blocks buf) (m_iterators buf)
               (m_begin buf) sz (D - m_begin buf) of
          Inl err \<Rightarrow> Inl err
        | Inr (bs, bg, pool') \<Rightarrow>
            (case bs of
               [] \<Rightarrow> Inl OutOfRange
             | block # _ \<Rightarrow>
                 if \<not> bg \<le> D then Inl AssertionFailed
                 else if m_iterators buf \<noteq> []
                    \<and> m_block (snd (last (m_iterators buf))) = baddr block
                    \<and> \<not> m_position (snd (last (m_iterators buf))) \<ge> bg
                 then Inl AssertionFailed
                 else if length bs = 1 \<and> \<not> bg \<le> m_end buf then Inl AssertionFailed
                 else Inr (buf\<lparr>m_blocks := bs, m_begin := bg\<rparr>, pool')))"


section \<open>Opening and closing a gap\<close>

text \<open>
  In \<open>insert\<close> and \<open>release\<close> two cursors walk the block list in the same direction.
  The model names a block by its index in the list: \<open>prev()\<close> of index \<open>0\<close> and
  \<open>next()\<close> of the last index are the list head. \<open>memmove\<close> copies \<open>n\<close> bytes from
  offset \<open>src\<close> of block \<open>si\<close> to offset \<open>dst\<close> of block \<open>di\<close>.
\<close>

definition memmove :: "nat \<Rightarrow> block list \<Rightarrow> nat \<Rightarrow> nat \<Rightarrow> nat \<Rightarrow> nat \<Rightarrow> nat
    \<Rightarrow> error + block list" where
  "memmove D bs di dst si src n =
     (if n = 0 then Inr bs
      else if \<not> (di < length bs \<and> si < length bs \<and> dst + n \<le> D \<and> src + n \<le> D)
      then Inl OutOfRange
      else Inr (bs[di := (bs ! di)\<lparr>bdata :=
                  write_at (bdata (bs ! di)) dst (take n (drop src (bdata (bs ! si))))\<rparr>]))"

definition block_index :: "block list \<Rightarrow> addr \<Rightarrow> nat option" where
  "block_index bs a =
     (if blocks_from bs a = [] then None else Some (length (blocks_upto bs a)))"

text \<open>
  \<open>insert\<close> throws away the iterator that \<open>appendBack\<close> returns: it is linked at the
  tail of the iterator list and unlinked at once, so \<open>insert\<close> is modelled on
  \<open>appendBack_body\<close>.

  The two loops that pick the iterators to adjust. \<open>itr_copy\<close> is linked right in front
  of \<open>itr\<close> and is equal to it, so the first step of the first loop always leads from
  \<open>itr_copy\<close> to \<open>itr\<close>; \<open>skip_same\<close> starts there (its argument is the iterator list
  from \<open>itr\<close> on). The result is the iterators that are passed over and the iterators
  from \<open>cur_itr\<close> on, which the second loop moves, every one of them.
\<close>

fun skip_same :: "(nat \<times> iterator) list
    \<Rightarrow> (nat \<times> iterator) list \<times> (nat \<times> iterator) list" where
  "skip_same [] = ([], [])"
| "skip_same [x] = ([], [x])"
| "skip_same (x # y # r) =
     (if \<not> iterator_eq (snd x) (snd y) then ([x], y # r)
      else (case skip_same (y # r) of (k, m) \<Rightarrow> (x # k, m)))"

fun move_all :: "(iterator \<Rightarrow> error + iterator) \<Rightarrow> (nat \<times> iterator) list
    \<Rightarrow> error + (nat \<times> iterator) list" where
  "move_all f [] = Inr []"
| "move_all f ((h, itr) # r) =
     (case f itr of
        Inl err \<Rightarrow> Inl err
      | Inr itr' \<Rightarrow> (case move_all f r of Inl err \<Rightarrow> Inl err | Inr r' \<Rightarrow> Inr ((h, itr') # r')))"

subsection \<open>Buffer::insert\<close>

function insert_loop :: "nat \<Rightarrow> nat \<Rightarrow> nat \<Rightarrow> block list \<Rightarrow> nat \<Rightarrow> nat \<Rightarrow> nat \<Rightarrow> nat
    \<Rightarrow> nat \<Rightarrow> nat \<Rightarrow> nat \<Rightarrow> error + block list" where
  "insert_loop D ii ip bs si di src dst left_in_src_block left_in_dst_block copy_chunk_sz =
     (if \<not> (di < length bs \<and> ii < length bs) then Inl OutOfRange
      else if \<not> (bid (bs ! di) > bid (bs ! ii) \<or> baddr (bs ! di) > baddr (bs ! ii)
                 \<or> (di = ii \<and> dst \<ge> ip))
      then Inl AssertionFailed
      else
        case memmove D bs di dst si src copy_chunk_sz of
          Inl err \<Rightarrow> Inl err
        | Inr bs' \<Rightarrow>
            if left_in_dst_block > left_in_src_block then
              (let left_in_dst_block' = left_in_dst_block - copy_chunk_sz in
               if si = ii then (if ip \<ge> src then Inr bs' else Inl AssertionFailed)
               else if si = 0 then Inl OutOfRange
               else insert_loop D ii ip bs' (si - 1) di (D - left_in_dst_block') 0
                      (D - (if si - 1 = ii then ip else 0)) left_in_dst_block'
                      left_in_dst_block')
            else
              (let left_in_src_block' = left_in_src_block - copy_chunk_sz in
               if di = 0 then Inl OutOfRange
               else insert_loop D ii ip bs' si (di - 1) 0 (D - left_in_src_block')
                      left_in_src_block' D left_in_src_block'))"
  by pat_completeness auto
termination
  by (relation "measure (\<lambda>(D, ii, ip, bs, si, di, r). si + di)") auto

declare insert_loop.simps [simp del]

definition insert_buf :: "nat \<Rightarrow> allocator \<Rightarrow> buffer \<Rightarrow> nat \<Rightarrow> nat
    \<Rightarrow> error + (buffer \<times> allocator)" where
  "insert_buf D pool buf h sz =
     (case map_of (m_iterators buf) h of
        None \<Rightarrow> Inl OutOfRange
      | Some itr \<Rightarrow>
          if m_blocks buf = [] then Inl OutOfRange
          else
            let si = length (m_blocks buf) - 1;
                src_block_end = m_end buf
            in case appendBack_body D pool buf sz of
                 (Inl err, _, _) \<Rightarrow> Inl err
               | (Inr _, buf1, pool1) \<Rightarrow>
                   (case block_index (m_blocks buf1) (m_block itr) of
                      None \<Rightarrow> Inl OutOfRange
                    | Some ii \<Rightarrow>
                        let ip = m_position itr;
                            di = length (m_blocks buf1) - 1;
                            src_block_begin = (if si = ii then ip else 0);
                            left_in_dst_block = m_end buf1;
                            left_in_src_block = size_t_diff src_block_end src_block_begin;
                            src = (if left_in_dst_block > left_in_src_block
                                   then src_block_begin
                                   else src_block_end - left_in_dst_block);
                            dst = (if left_in_dst_block > left_in_src_block
                                   then m_end buf1 - left_in_src_block
                                   else 0);
                            copy_chunk_sz = min left_in_src_block left_in_dst_block
                        in case insert_loop D ii ip (m_blocks buf1) si di src dst
                                  left_in_src_block left_in_dst_block copy_chunk_sz of
                             Inl err \<Rightarrow> Inl err
                           | Inr bs' \<Rightarrow>
                               (case skip_same (iters_from (m_iterators buf1) h) of
                                  (same, to_move) \<Rightarrow>
                                    (case move_all (\<lambda>i. moveForward D bs' i sz) to_move of
                                       Inl err \<Rightarrow> Inl err
                                     | Inr moved \<Rightarrow>
                                         Inr (buf1\<lparr>m_blocks := bs',
                                                m_iterators :=
                                                  iters_upto (m_iterators buf1) h @ same @ moved\<rparr>,
                                              pool1)))))"


subsection \<open>Buffer::release\<close>

text \<open>The loop that locates the block to start copying with.\<close>

function release_locate :: "nat \<Rightarrow> nat \<Rightarrow> nat \<Rightarrow> nat \<Rightarrow> nat \<Rightarrow> error + (nat \<times> nat)" where
  "release_locate D n si src step =
     (if step \<ge> D - src then
        (if si + 1 \<ge> n then Inl OutOfRange
         else release_locate D n (si + 1) 0 (step - (D - src)))
      else Inr (si, src + step))"
  by pat_completeness auto
termination
  by (relation "measure (\<lambda>(D, n, si, src, step). n - si)") auto

declare release_locate.simps [simp del]

function release_loop :: "nat \<Rightarrow> block list \<Rightarrow> nat \<Rightarrow> nat \<Rightarrow> nat \<Rightarrow> nat
    \<Rightarrow> nat \<Rightarrow> nat \<Rightarrow> nat \<Rightarrow> error + block list" where
  "release_loop D bs si di src dst left_in_src_block left_in_dst_block copy_chunk_sz =
     (case memmove D bs di dst si src copy_chunk_sz of
        Inl err \<Rightarrow> Inl err
      | Inr bs' \<Rightarrow>
          if left_in_dst_block > left_in_src_block then
            (let left_in_dst_block' = left_in_dst_block - copy_chunk_sz in
             if si + 1 \<ge> length bs then Inr bs'
             else release_loop D bs' (si + 1) di 0 (dst + copy_chunk_sz) D
                    left_in_dst_block' left_in_dst_block')
          else
            (let left_in_src_block' = left_in_src_block - copy_chunk_sz in
             if di + 1 \<ge> length bs then Inl OutOfRange
             else release_loop D bs' si (di + 1) (src + copy_chunk_sz) 0
                    left_in_src_block' D left_in_src_block'))"
  by pat_completeness auto
termination
  by (relation "measure (\<lambda>(D, bs, si, di, r). (length bs - si) + (length bs - di))")
     (auto simp: memmove_def split: if_splits)

declare release_loop.simps [simp del]

definition release :: "nat \<Rightarrow> allocator \<Rightarrow> buffer \<Rightarrow> nat \<Rightarrow> nat
    \<Rightarrow> error + (buffer \<times> allocator)" where
  "release D pool buf h sz =
     (case map_of (m_iterators buf) h of
        None \<Rightarrow> Inl OutOfRange
      | Some itr \<Rightarrow>
          (case block_index (m_blocks buf) (m_block itr) of
             None \<Rightarrow> Inl OutOfRange
           | Some ii \<Rightarrow>
               if D < m_position itr then Inl AssertionFailed
               else
                 case release_locate D (length (m_blocks buf)) ii (m_position itr) sz of
                   Inl err \<Rightarrow> Inl err
                 | Inr (si, src) \<Rightarrow>
                     let dst = m_position itr;
                         left_in_dst_block = D - dst;
                         left_in_src_block = D - src;
                         copy_chunk_sz = min left_in_src_block left_in_dst_block
                     in case release_loop D (m_blocks buf) si ii src dst
                               left_in_src_block left_in_dst_block copy_chunk_sz of
                          Inl err \<Rightarrow> Inl err
                        | Inr bs' \<Rightarrow>
                            (case skip_same (iters_from (m_iterators buf) h) of
                               (same, to_move) \<Rightarrow>
                                 (case move_all (\<lambda>i. moveBackward D bs' i sz) to_move of
                                    Inl err \<Rightarrow> Inl err
                                  | Inr moved \<Rightarrow>
                                      dropBack D pool
                                        (buf\<lparr>m_blocks := bs',
                                             m_iterators :=
                                               iters_upto (m_iterators buf) h @ same @ moved\<rparr>)
                                        sz))))"

definition resize :: "nat \<Rightarrow> allocator \<Rightarrow> buffer \<Rightarrow> nat \<Rightarrow> nat \<Rightarrow> nat
    \<Rightarrow> error + (buffer \<times> allocator)" where
  "resize D pool buf h sz new_size =
     (if new_size > sz then insert_buf D pool buf h (new_size - sz)
      else release D pool buf h (sz - new_size))"


section \<open>The connection (Connection.hpp)\<close>

text \<open>
  Modelled from the spec: \<open>Response\<close> and \<open>DecodeStatus\<close> (declared in the absent
  \<open>ResponseDecoder.hpp\<close>). A response is its header (\<open>sync\<close>, \<open>code\<close>, \<open>schema_id\<close>), its
  body and its \<open>size\<close>; the status is one of the three values \<open>processResponse\<close>
  returns.

  \<open>rid_t\<close> is \<open>size_t\<close>. The body of a response is left open (\<open>'b\<close>). The static
  counter of \<open>inputBufGC\<close> is the field \<open>gc_step\<close>; the state of the decoder is left
  open (\<open>'d\<close>). \<open>endDecoded\<close> is an iterator of \<open>inBuf\<close> and is kept as its handle in the
  iterator list of \<open>inBuf\<close>. The allocator is static and shared by both buffers, so it
  is passed beside the connection.
\<close>

record 'b response =
  sync :: nat
  code :: int
  schema_id :: nat
  body :: 'b
  resp_size :: int

record ConnectionError =
  msg :: string
  saved_errno :: int

record ('d, 'b) connection =
  inBuf :: buffer
  outBuf :: buffer
  dec :: 'd
  endDecoded :: nat
  conn_error :: ConnectionError
  futures :: "nat \<rightharpoonup> 'b response"
  gc_step :: nat

datatype DecodeStatus = DECODE_SUCC | DECODE_ERR | DECODE_NEEDMORE

subsection \<open>getResponse, futureIsReady, flush, setError\<close>

definition futureIsReady :: "('d, 'b) connection \<Rightarrow> nat \<Rightarrow> bool" where
  "futureIsReady conn future \<longleftrightarrow> futures conn future \<noteq> None"

definition getResponse :: "('d, 'b) connection \<Rightarrow> nat
    \<Rightarrow> error + ('b response \<times> ('d, 'b) connection)" where
  "getResponse conn future =
     (case futures conn future of
        None \<Rightarrow> Inl Aborted
      | Some response \<Rightarrow> Inr (response, conn\<lparr>futures := (futures conn)(future := None)\<rparr>))"

definition flush :: "('d, 'b) connection \<Rightarrow> ('d, 'b) connection" where
  "flush conn = conn\<lparr>futures := Map.empty\<rparr>"

definition setError :: "('d, 'b) connection \<Rightarrow> string \<Rightarrow> int \<Rightarrow> ('d, 'b) connection" where
  "setError conn m errno = conn\<lparr>conn_error := \<lparr>msg = m, saved_errno = errno\<rparr>\<rparr>"

subsection \<open>hasSentBytes, hasNotRecvBytes\<close>

definition hasSentBytes :: "nat \<Rightarrow> allocator \<Rightarrow> ('d, 'b) connection \<Rightarrow> nat
    \<Rightarrow> error + (('d, 'b) connection \<times> allocator)" where
  "hasSentBytes D pool conn bytes =
     (if bytes > 0 then
        (case dropFront D pool (outBuf conn) bytes of
           Inl err \<Rightarrow> Inl err
         | Inr (buf, pool') \<Rightarrow> Inr (conn\<lparr>outBuf := buf\<rparr>, pool'))
      else Inr (conn, pool))"

definition hasNotRecvBytes :: "nat \<Rightarrow> allocator \<Rightarrow> ('d, 'b) connection \<Rightarrow> nat
    \<Rightarrow> error + (('d, 'b) connection \<times> allocator)" where
  "hasNotRecvBytes D pool conn bytes =
     (if bytes > 0 then
        (case dropBack D pool (inBuf conn) bytes of
           Inl err \<Rightarrow> Inl err
         | Inr (buf, pool') \<Rightarrow> Inr (conn\<lparr>inBuf := buf\<rparr>, pool'))
      else Inr (conn, pool))"

subsection \<open>processResponse\<close>

text \<open>
  \<open>ResponseDecoder.hpp\<close> and the \<open>flush\<close> method of the buffer are not among the
  sources, so what \<open>processResponse\<close> calls there is a parameter: \<open>decodeResponseSize\<close>
  and \<open>decodeResponse\<close> read the input buffer from the decoder's position and return
  their result with the new state of the decoder, \<open>reset\<close> moves the decoder to an
  iterator, \<open>new_response\<close> is a default-constructed \<open>Response\<close>, \<open>buffer_flush\<close> is
  \<open>Buffer::flush\<close>.
\<close>

record ('d, 'b) decoder_ops =
  decodeResponseSize :: "'d \<Rightarrow> buffer \<Rightarrow> int \<times> 'd"
  decodeResponse :: "'d \<Rightarrow> buffer \<Rightarrow> 'b response \<Rightarrow> int \<times> 'b response \<times> 'd"
  reset :: "'d \<Rightarrow> iterator \<Rightarrow> 'd"
  new_response :: "'b response"
  buffer_flush :: "buffer \<Rightarrow> buffer"

text \<open>
  Modelled from the spec: \<open>MP_RESPONSE_SIZE\<close> (declared in the absent
  \<open>ResponseDecoder.hpp\<close>) is 5, the tag \<open>0xce\<close> and the four bytes of the length.
\<close>

definition MP_RESPONSE_SIZE :: nat where
  "MP_RESPONSE_SIZE = 5"

definition GC_STEP_CNT :: nat where
  "GC_STEP_CNT = 100"

definition inputBufGC :: "('d, 'b) decoder_ops \<Rightarrow> ('d, 'b) connection \<Rightarrow> ('d, 'b) connection" where
  "inputBufGC ops conn =
     (if gc_step conn mod GC_STEP_CNT = 0
      then conn\<lparr>gc_step := gc_step conn + 1, inBuf := buffer_flush ops (inBuf conn)\<rparr>
      else conn\<lparr>gc_step := gc_step conn + 1\<rparr>)"

text \<open>
  \<open>result\<close> is \<open>None\<close> for a null pointer and \<open>Some r\<close> for a pointer to \<open>r\<close>; the
  third component of the outcome is what \<open>result\<close> points to afterwards.
  \<open>unordered_map::insert\<close> leaves an entry alone whose key is already present.
\<close>

definition processResponse :: "('d, 'b) decoder_ops \<Rightarrow> nat \<Rightarrow> ('d, 'b) connection
    \<Rightarrow> 'b response option
    \<Rightarrow> error + (DecodeStatus \<times> ('d, 'b) connection \<times> 'b response option)" where
  "processResponse ops D conn result =
     (case map_of (m_iterators (inBuf conn)) (endDecoded conn) of
        None \<Rightarrow> Inl OutOfRange
      | Some ed \<Rightarrow>
        (case has D (inBuf conn) ed MP_RESPONSE_SIZE of
           Inl err \<Rightarrow> Inl err
         | Inr False \<Rightarrow> Inr (DECODE_NEEDMORE, conn, result)
         | Inr True \<Rightarrow>
           (case decodeResponseSize ops (dec conn) (inBuf conn) of
              (sz, d1) \<Rightarrow>
                if sz < 0 then Inl Aborted
                else
                  let response = (new_response ops)\<lparr>resp_size := sz + int MP_RESPONSE_SIZE\<rparr>
                  in case has D (inBuf conn) ed (nat (resp_size response)) of
                       Inl err \<Rightarrow> Inl err
                     | Inr False \<Rightarrow>
                         Inr (DECODE_NEEDMORE, conn\<lparr>dec := reset ops d1 ed\<rparr>, result)
                     | Inr True \<Rightarrow>
                       (case decodeResponse ops d1 (inBuf conn) response of
                          (rc, response', d2) \<Rightarrow>
                            if rc \<noteq> 0 then
                              (case iterator_add D (inBuf conn) (endDecoded conn)
                                      (nat (resp_size response')) of
                                 Inl err \<Rightarrow> Inl err
                               | Inr ib \<Rightarrow>
                                   Inr (DECODE_ERR,
                                        (setError (conn\<lparr>dec := d2\<rparr>)
                                           ''Failed to decode response, skipping bytes..'' 0)
                                          \<lparr>inBuf := ib\<rparr>,
                                        result))
                            else
                              let conn1 =
                                    (if result \<noteq> None then conn\<lparr>dec := d2\<rparr>
                                     else conn\<lparr>dec := d2, futures :=
                                            (if futures conn (sync response') = None
                                             then (futures conn)(sync response' \<mapsto> response')
                                             else futures conn)\<rparr>);
                                  result' = (if result \<noteq> None then Some response' else None)
                              in case iterator_add D (inBuf conn1) (endDecoded conn1)
                                        (nat (resp_size response')) of
                                   Inl err \<Rightarrow> Inl err
                                 | Inr ib \<Rightarrow>
                                     Inr (DECODE_SUCC, inputBufGC ops (conn1\<lparr>inBuf := ib\<rparr>),
                                          result')))))"


section \<open>Well-formed states and the position of an iterator\<close>

text \<open>
  What the properties below mean by a buffer state and a live iterator: every block
  holds \<open>D\<close> bytes, no two blocks share an address, \<open>m_begin\<close> and \<open>m_end\<close> lie
  inside their blocks; an iterator points into a block of the list, at an offset up to
  \<open>D\<close>, and not behind \<open>m_end\<close> when it points into the last block.
\<close>

definition buffer_ok :: "nat \<Rightarrow> buffer \<Rightarrow> bool" where
  "buffer_ok D buf \<longleftrightarrow>
     0 < D \<and> m_blocks buf \<noteq> [] \<and> distinct (map baddr (m_blocks buf))
     \<and> list_all (\<lambda>b. length (bdata b) = D) (m_blocks buf)
     \<and> m_begin buf \<le> D \<and> m_end buf \<le> D"

definition iterator_ok :: "nat \<Rightarrow> buffer \<Rightarrow> iterator \<Rightarrow> bool" where
  "iterator_ok D buf itr \<longleftrightarrow>
     blocks_from (m_blocks buf) (m_block itr) \<noteq> [] \<and> m_position itr \<le> D
     \<and> (length (blocks_from (m_blocks buf) (m_block itr)) = 1
          \<longrightarrow> m_position itr \<le> m_end buf)"


text \<open>
  The room behind \<open>m_end\<close> in the last block, and the number of blocks of \<open>D\<close>
  bytes that \<open>sz\<close> more bytes need beyond it.
\<close>

definition left_in_last :: "nat \<Rightarrow> buffer \<Rightarrow> nat" where
  "left_in_last D buf = (if m_blocks buf = [] then 0 else D - m_end buf)"

definition blocks_needed :: "nat \<Rightarrow> buffer \<Rightarrow> nat \<Rightarrow> nat" where
  "blocks_needed D buf sz = (sz - left_in_last D buf + D - 1) div D"

text \<open>
  The number of bytes between an iterator and \<open>end()\<close>, and the absolute position of
  an iterator, counted in bytes from the start of the first block.
\<close>

definition bytes_to_end :: "nat \<Rightarrow> buffer \<Rightarrow> iterator \<Rightarrow> nat" where
  "bytes_to_end D buf itr =
     (length (blocks_from (m_blocks buf) (m_block itr)) - 1) * D + m_end buf
       - m_position itr"

definition position :: "nat \<Rightarrow> buffer \<Rightarrow> iterator \<Rightarrow> nat" where
  "position D buf itr =
     length (blocks_upto (m_blocks buf) (m_block itr)) * D + m_position itr"

text \<open>The bytes of the buffer from \<open>m_begin\<close> to \<open>m_end\<close>.\<close>

definition contents :: "nat \<Rightarrow> buffer \<Rightarrow> byte list" where
  "contents D buf =
     drop (m_begin buf)
       (concat (map bdata (butlast (m_blocks buf)))
          @ take (m_end buf) (bdata (last (m_blocks buf))))"

section \<open>Concrete states\<close>

definition blk :: "addr \<Rightarrow> 64 word \<Rightarrow> byte list \<Rightarrow> block" where
  "blk a i d = \<lparr>baddr = a, bid = i, bdata = d\<rparr>"

definition itr_at :: "addr \<Rightarrow> nat \<Rightarrow> iterator" where
  "itr_at a p = \<lparr>m_block = a, m_position = p\<rparr>"

text \<open>
  The concrete states use \<open>DATA_SIZE = 8\<close>, which is what the blocks of
  \<open>Buffer<32>\<close> hold.
\<close>

definition bytes8 :: "byte list" where
  "bytes8 = [1, 2, 3, 4, 5, 6, 7, 8]"

text \<open>One block, three bytes in use, an iterator at offset 2.\<close>

definition buf_one :: buffer where
  "buf_one = \<lparr>m_blocks = [blk 100 0 bytes8], m_iterators = [(1, itr_at 100 2)],
     m_begin = 0, m_end = 3\<rparr>"

text \<open>One full block, an iterator at offset 7.\<close>

definition buf_full :: buffer where
  "buf_full = \<lparr>m_blocks = [blk 100 0 bytes8], m_iterators = [(1, itr_at 100 7)],
     m_begin = 0, m_end = 8\<rparr>"

text \<open>Eight bytes of memory behind the list head.\<close>

definition hmem8 :: "byte list" where
  "hmem8 = [0, 0, 0, 0, 0, 0, 0, 0]"

text \<open>
  Two blocks holding the bytes 1 to 9, with an iterator at position 1 (handle 1) and
  one at the end (handle 2).
\<close>

definition buf_two :: buffer where
  "buf_two = \<lparr>m_blocks = [blk 100 0 bytes8, blk 200 1 [9, 0, 0, 0, 0, 0, 0, 0]],
     m_iterators = [(1, itr_at 100 1), (2, itr_at 200 1)], m_begin = 0, m_end = 1\<rparr>"

text \<open>A free chunk with stale contents.\<close>

definition chunk300 :: block where
  "chunk300 = blk 300 7 [9, 9, 9, 9, 9, 9, 9, 9]"

definition conn_example :: "(unit, unit) connection" where
  "conn_example = \<lparr>inBuf = buf_two, outBuf = buf_two, dec = (), endDecoded = 1,
     conn_error = \<lparr>msg = [], saved_errno = 0\<rparr>,
     futures = [7 \<mapsto> \<lparr>sync = 7, code = 0, schema_id = 0, body = (), resp_size = 9\<rparr>],
     gc_step = 0\<rparr>"

text \<open>
  \<open>buf_two\<close> after \<open>insert\<close> of two bytes at the iterator with handle 1, that state
  after \<open>release\<close> of two bytes at the same iterator, and \<open>buf_one\<close> after \<open>insert\<close>
  of one byte at its only iterator, as the code leaves them.
\<close>

definition buf_two_inserted :: buffer where
  "buf_two_inserted =
     \<lparr>m_blocks = [blk 100 1 [1, 2, 3, 1, 2, 3, 4, 5], blk 200 2 [7, 8, 9, 0, 0, 0, 0, 0]],
      m_iterators = [(1, itr_at 100 1), (2, itr_at 200 3)], m_begin = 0, m_end = 3\<rparr>"

definition buf_two_released :: buffer where
  "buf_two_released =
     \<lparr>m_blocks = [blk 100 1 [1, 1, 2, 3, 4, 5, 7, 8], blk 200 2 [9, 0, 0, 0, 0, 0, 0, 0]],
      m_iterators = [(1, itr_at 100 1), (2, itr_at 200 1)], m_begin = 0, m_end = 1\<rparr>"

definition buf_one_inserted :: buffer where
  "buf_one_inserted =
     \<lparr>m_blocks = [blk 100 0 [1, 2, 3, 3, 5, 6, 7, 8]],
      m_iterators = [(1, itr_at 100 3)], m_begin = 0, m_end = 4\<rparr>"

text \<open>
  Two iovecs overlap when they lie in the same block and share a byte. (An iovec never
  leaves its block, and chunks do not overlap.)
\<close>

definition iov_overlap :: "iovec \<Rightarrow> iovec \<Rightarrow> bool" where
  "iov_overlap v w \<longleftrightarrow>
     fst (iov_base v) = fst (iov_base w)
     \<and> snd (iov_base v) < snd (iov_base w) + iov_len w
     \<and> snd (iov_base w) < snd (iov_base v) + iov_len v"

text \<open>
  The ids of the blocks grow along the block list, and the place of a handle in the
  iterator list.
\<close>

definition ids_increasing :: "block list \<Rightarrow> bool" where
  "ids_increasing bs \<longleftrightarrow> sorted_wrt (\<lambda>x y. bid x < bid y) bs"

definition precedes :: "(nat \<times> iterator) list \<Rightarrow> nat \<Rightarrow> nat \<Rightarrow> bool" where
  "precedes its g h \<longleftrightarrow> length (iters_upto its g) < length (iters_upto its h)"

text \<open>
  A buffer of one block without iterators, the same buffer after two calls of
  \<open>begin()\<close>, and two free chunks whose \<open>id\<close> fields hold 1 and 0.
\<close>

definition buf_plain :: buffer where
  "buf_plain = \<lparr>m_blocks = [blk 100 0 bytes8], m_iterators = [], m_begin = 0, m_end = 3\<rparr>"

definition buf_two_begins :: buffer where
  "buf_two_begins = \<lparr>m_blocks = [blk 100 0 bytes8],
     m_iterators = [(2, itr_at 100 0), (1, itr_at 100 0)], m_begin = 0, m_end = 3\<rparr>"

definition stale_pool :: allocator where
  "stale_pool = [blk 300 1 bytes8, blk 400 0 bytes8]"

definition buf_empty :: buffer where
  "buf_empty = \<lparr>m_blocks = [], m_iterators = [], m_begin = 0, m_end = 0\<rparr>"

text \<open>
  The buffer after \<open>appendBack(9)\<close> on the empty buffer with these two chunks (the
  iterator returned has the handle 5), \<open>begin()\<close> (handle 1) and \<open>end()\<close> (handle 2).
\<close>

definition buf_stale :: buffer where
  "buf_stale = \<lparr>m_blocks = [blk 300 1 bytes8, blk 400 0 bytes8],
     m_iterators = [(1, itr_at 300 0), (5, itr_at 300 0), (2, itr_at 400 1)],
     m_begin = 0, m_end = 1\<rparr>"

text \<open>
  A decoder for the concrete runs of \<open>processResponse\<close>: its state is the iterator it
  stands at, it reports the frame size \<open>sz\<close>, the return code \<open>rc\<close> and the sync
  \<open>sy\<close>, and \<open>Buffer::flush\<close> drops nothing. \<open>conn_in\<close> has the input buffer \<open>buf_two\<close>
  with \<open>endDecoded\<close> at position 1 (eight bytes to decode); in \<open>conn_short\<close>
  \<open>endDecoded\<close> is at position 6 (three bytes to decode); in \<open>conn_last\<close> the input
  buffer is one block with five bytes in use and \<open>endDecoded\<close> at offset 2.
\<close>

definition dec_stub :: "int \<Rightarrow> int \<Rightarrow> nat \<Rightarrow> (iterator, unit) decoder_ops" where
  "dec_stub sz rc sy =
     \<lparr>decodeResponseSize = (\<lambda>d buf. (sz, d)),
      decodeResponse = (\<lambda>d buf r. (rc, r\<lparr>sync := sy\<rparr>, d)),
      reset = (\<lambda>d itr. itr),
      new_response = \<lparr>sync = 0, code = 0, schema_id = 0, body = (), resp_size = 0\<rparr>,
      buffer_flush = (\<lambda>buf. buf)\<rparr>"

definition conn_in :: "(iterator, unit) connection" where
  "conn_in = \<lparr>inBuf = buf_two, outBuf = buf_plain, dec = itr_at 100 1, endDecoded = 1,
     conn_error = \<lparr>msg = [], saved_errno = 0\<rparr>, futures = Map.empty, gc_step = 1\<rparr>"


definition conn_last :: "(iterator, unit) connection" where
  "conn_last = conn_in\<lparr>inBuf := \<lparr>m_blocks = [blk 100 0 bytes8],
       m_iterators = [(1, itr_at 100 2), (2, itr_at 100 5)], m_begin = 0, m_end = 5\<rparr>,
     dec := itr_at 100 2\<rparr>"

text \<open>
  \<open>conn_new\<close> is the connection as its constructor leaves it: no block in the input
  buffer, \<open>endDecoded\<close> the \<open>begin()\<close> of that buffer. In \<open>conn_ahead\<close> the decoder
  stands one byte behind \<open>endDecoded\<close>, and in \<open>conn_dup\<close> a response with sync 7
  waits in the futures.
\<close>

definition conn_new :: "(iterator, unit) connection" where
  "conn_new = conn_in\<lparr>inBuf := buf_empty\<lparr>m_iterators := [(1, itr_at list_head 0)]\<rparr>,
     dec := itr_at list_head 0\<rparr>"



section \<open>Futures\<close>

text \<open>
  C1. When \<open>futureIsReady s\<close> holds, \<open>getResponse s\<close> returns the response stored for
  \<open>s\<close> and erases it from the futures map, leaving every other entry alone; afterwards
  \<open>futureIsReady s\<close> is false and a second \<open>getResponse s\<close> aborts, so the response is
  handed out once. Without a response for \<open>s\<close>, \<open>getResponse s\<close> aborts (debug build).
\<close>

theorem getResponse_delivers_once:
  "(futureIsReady conn s \<longrightarrow>
      (\<exists>r conn'. getResponse conn s = Inr (r, conn') \<and> futures conn s = Some r
         \<and> futures conn' = (futures conn)(s := None)
         \<and> \<not> futureIsReady conn' s
         \<and> getResponse conn' s = Inl Aborted
         \<and> (\<forall>t. t \<noteq> s \<longrightarrow> futureIsReady conn' t = futureIsReady conn t)))
   \<and> (\<not> futureIsReady conn s \<longrightarrow> getResponse conn s = Inl Aborted)"
  by (auto simp: futureIsReady_def getResponse_def)

theorem getResponse_delivers_once_witness:
  "futureIsReady conn_example 7
   \<and> (\<exists>r conn'. getResponse conn_example 7 = Inr (r, conn') \<and> sync r = 7
         \<and> \<not> futureIsReady conn' 7 \<and> getResponse conn' 7 = Inl Aborted)
   \<and> \<not> futureIsReady conn_example 8
   \<and> getResponse conn_example 8 = Inl Aborted"
proof -
  have ready: "futureIsReady conn_example 7" and absent: "\<not> futureIsReady conn_example 8"
    by (simp_all add: futureIsReady_def conn_example_def)
  have stored: "futures conn_example 7
      = Some \<lparr>sync = 7, code = 0, schema_id = 0, body = (), resp_size = 9\<rparr>"
    by (simp add: conn_example_def)
  from getResponse_delivers_once [of conn_example 7] ready stored
  have "\<exists>r conn'. getResponse conn_example 7 = Inr (r, conn') \<and> sync r = 7
         \<and> \<not> futureIsReady conn' 7 \<and> getResponse conn' 7 = Inl Aborted"
    by auto
  moreover from getResponse_delivers_once [of conn_example 8] absent
  have "getResponse conn_example 8 = Inl Aborted"
    by simp
  ultimately show ?thesis
    using ready absent by simp
qed

section \<open>The I/O layer and the assertions of dropFront and dropBack\<close>

text \<open>
  C10. \<open>dropFront\<close> and \<open>dropBack\<close> fail their assertions on a size of zero and on a
  buffer without blocks. \<open>hasSentBytes\<close> and \<open>hasNotRecvBytes\<close> leave the connection
  untouched when the byte count is zero, and pass a positive count on to \<open>dropFront\<close>
  on the output buffer and to \<open>dropBack\<close> on the input buffer.
\<close>

theorem io_layer_never_drops_zero:
  "hasSentBytes D pool conn 0 = Inr (conn, pool)
   \<and> hasNotRecvBytes D pool conn 0 = Inr (conn, pool)
   \<and> dropFront D pool buf 0 = Inl AssertionFailed
   \<and> dropBack D pool buf 0 = Inl AssertionFailed
   \<and> dropFront D pool (buf\<lparr>m_blocks := []\<rparr>) b = Inl AssertionFailed
   \<and> dropBack D pool (buf\<lparr>m_blocks := []\<rparr>) b = Inl AssertionFailed
   \<and> (0 < b \<longrightarrow> hasSentBytes D pool conn b =
         (case dropFront D pool (outBuf conn) b of
            Inl err \<Rightarrow> Inl err
          | Inr (buf', pool') \<Rightarrow> Inr (conn\<lparr>outBuf := buf'\<rparr>, pool')))
   \<and> (0 < b \<longrightarrow> hasNotRecvBytes D pool conn b =
         (case dropBack D pool (inBuf conn) b of
            Inl err \<Rightarrow> Inl err
          | Inr (buf', pool') \<Rightarrow> Inr (conn\<lparr>inBuf := buf'\<rparr>, pool')))"
  by (simp add: hasSentBytes_def hasNotRecvBytes_def dropFront_def dropBack_def)

theorem io_layer_never_drops_zero_witness:
  "(0::nat) < 2
   \<and> hasSentBytes 8 [] conn_example 0 = Inr (conn_example, [])
   \<and> hasSentBytes 8 [] conn_example 2 =
       (case dropFront 8 [] (outBuf conn_example) 2 of
          Inl err \<Rightarrow> Inl err
        | Inr (buf', pool') \<Rightarrow> Inr (conn_example\<lparr>outBuf := buf'\<rparr>, pool'))
   \<and> hasNotRecvBytes 8 [] conn_example 2 =
       (case dropBack 8 [] (inBuf conn_example) 2 of
          Inl err \<Rightarrow> Inl err
        | Inr (buf', pool') \<Rightarrow> Inr (conn_example\<lparr>inBuf := buf'\<rparr>, pool'))"
  using io_layer_never_drops_zero [of 8 "[]" conn_example buf_two 2] by simp

section \<open>Buffer::has\<close>



text \<open>
  C5. The claim is that \<open>has(it, n)\<close> holds exactly when \<open>n\<close> bytes remain between
  \<open>it\<close> and \<open>end()\<close>, also for an iterator at a nonzero offset of the last block. In the
  buffer \<open>buf_one\<close> (one block of eight bytes, three bytes in use) the iterator at offset 2 has one
  byte in front of it, and \<open>has\<close> answers true for two bytes.
\<close>

theorem has_last_block_overcounts:
  "has 8 buf_one (itr_at 100 2) 2 = Inr True \<and> bytes_to_end 8 buf_one (itr_at 100 2) = 1"
  by (simp add: has_def buf_one_def itr_at_def blk_def blocks_from_def bytes_to_end_def)

section \<open>Buffer::appendBack is transactional\<close>

lemma Blocks_dtor_rev: "Blocks_dtor nb pool = rev nb @ pool"
  unfolding Blocks_dtor_def by (induction nb arbitrary: pool) (auto simp: deallocate_def)

lemma newBlocks_done:
  "\<not> sz > left \<Longrightarrow> newBlocks D pool nb ne sz left = (Inr (nb, ne, sz), pool)"
  by (subst newBlocks.simps) simp

lemma newBlocks_throw:
  "sz > left \<Longrightarrow> newBlocks D [] nb ne sz left = (Inl OutOfMemory, Blocks_dtor nb [])"
  by (subst newBlocks.simps) (simp add: allocate_def)

lemma newBlocks_step:
  "sz > left \<Longrightarrow>
     newBlocks D (c # rest) nb ne sz left = newBlocks D rest (nb @ [c]) 0 (sz - left) D"
  by (subst newBlocks.simps) (simp add: allocate_def)

lemma newBlocks_failure:
  "newBlocks D pool nb ne sz left = (Inl err, pool') \<Longrightarrow>
     err = OutOfMemory \<and> pool' = rev (nb @ pool)"
proof (induction D pool nb ne sz left rule: newBlocks.induct)
  case (1 D pool nb ne sz left)
  show ?case
  proof (cases "sz > left")
    case False
    with "1.prems" show ?thesis by (simp add: newBlocks_done)
  next
    case True
    show ?thesis
    proof (cases pool)
      case Nil
      with True "1.prems" show ?thesis
        by (simp add: newBlocks_throw Blocks_dtor_rev)
    next
      case (Cons c rest)
      with True "1.prems" have "newBlocks D rest (nb @ [c]) 0 (sz - left) D = (Inl err, pool')"
        by (simp add: newBlocks_step)
      with "1.IH" [of "(c, rest)" c rest] True Cons show ?thesis
        by (simp add: allocate_def)
    qed
  qed
qed

lemma newBlocks_success:
  "newBlocks D pool nb ne sz left = (Inr (nbs, ne', sz'), pool') \<Longrightarrow>
     \<exists>new. pool = new @ pool' \<and> nbs = nb @ new
       \<and> (new = [] \<longrightarrow> ne' = ne \<and> sz' = sz \<and> sz \<le> left)
       \<and> (new \<noteq> [] \<longrightarrow> ne' = 0 \<and> 0 < sz' \<and> sz' \<le> D
             \<and> sz = left + (length new - 1) * D + sz')"
proof (induction D pool nb ne sz left arbitrary: rule: newBlocks.induct)
  case (1 D pool nb ne sz left)
  show ?case
  proof (cases "sz > left")
    case False
    with "1.prems" show ?thesis by (simp add: newBlocks_done)
  next
    case True
    show ?thesis
    proof (cases pool)
      case Nil
      with True "1.prems" show ?thesis
        by (simp add: newBlocks_throw)
    next
      case (Cons c rest)
      with True "1.prems" have run: "newBlocks D rest (nb @ [c]) 0 (sz - left) D = (Inr (nbs, ne', sz'), pool')"
        by (simp add: newBlocks_step)
      from "1.IH" [of "(c, rest)" c rest] True Cons run
      obtain new where n: "rest = new @ pool'" "nbs = (nb @ [c]) @ new"
        "new = [] \<longrightarrow> ne' = 0 \<and> sz' = sz - left \<and> sz - left \<le> D"
        "new \<noteq> [] \<longrightarrow> ne' = 0 \<and> 0 < sz' \<and> sz' \<le> D \<and> sz - left = D + (length new - 1) * D + sz'"
        by (auto simp: allocate_def)
      show ?thesis
      proof (rule exI [of _ "c # new"], intro conjI)
        show "pool = (c # new) @ pool'" using Cons n(1) by simp
        show "nbs = nb @ c # new" using n(2) by simp
        show "c # new = [] \<longrightarrow> ne' = ne \<and> sz' = sz \<and> sz \<le> left" by simp
        show "c # new \<noteq> [] \<longrightarrow> ne' = 0 \<and> 0 < sz' \<and> sz' \<le> D
             \<and> sz = left + (length (c # new) - 1) * D + sz'"
        proof (cases new)
          case Nil
          with n(3) True show ?thesis by simp
        next
          case (Cons a list)
          with n(4) have e: "sz - left = D + (length new - 1) * D + sz'" and r: "ne' = 0 \<and> 0 < sz' \<and> sz' \<le> D"
            by simp_all
          from e True have "sz = left + (D + (length new - 1) * D + sz')" by arith
          with r Cons show ?thesis by simp
        qed
      qed
    qed
  qed
qed

lemma renumber_baddr [simp]: "map baddr (renumber i bs) = map baddr bs"
  by (induction bs arbitrary: i) auto
lemma renumber_bdata [simp]: "map bdata (renumber i bs) = map bdata bs"
  by (induction bs arbitrary: i) auto
lemma renumber_length [simp]: "length (renumber i bs) = length bs"
  by (induction bs arbitrary: i) auto
lemma renumber_Nil [simp]: "renumber i bs = [] \<longleftrightarrow> bs = []"
  by (cases bs) auto

lemma newBlocks_failure_room:
  "newBlocks D pool nb ne sz left = (Inl err, pool') \<Longrightarrow> left + length pool * D < sz"
proof (induction D pool nb ne sz left rule: newBlocks.induct)
  case (1 D pool nb ne sz left)
  show ?case
  proof (cases "sz > left")
    case False
    with "1.prems" show ?thesis by (simp add: newBlocks_done)
  next
    case True
    show ?thesis
    proof (cases pool)
      case Nil
      with True show ?thesis by simp
    next
      case (Cons c rest)
      with True "1.prems" have "newBlocks D rest (nb @ [c]) 0 (sz - left) D = (Inl err, pool')"
        by (simp add: newBlocks_step)
      with "1.IH" [of "(c, rest)" c rest] True Cons
      have "D + length rest * D < sz - left"
        by (simp add: allocate_def)
      with Cons show ?thesis by simp
    qed
  qed
qed

lemma ceil_div_blocks:
  assumes "0 < D" "0 < r" "r \<le> D"
  shows "(k * D + r + D - 1) div D = Suc k"
proof (rule div_nat_eqI)
  show "D * Suc k \<le> k * D + r + D - 1"
    using assms by (simp add: algebra_simps)
  show "k * D + r + D - 1 < D * Suc (Suc k)"
    using assms by (simp add: algebra_simps)
qed

lemma needed_more:
  fixes D left n sz :: nat
  assumes "0 < D" "left + n * D < sz"
  shows "n < (sz - left + D - 1) div D"
proof -
  have "Suc n * D \<le> sz - left + D - 1"
    using assms by simp
  then have "(Suc n * D) div D \<le> (sz - left + D - 1) div D"
    by (rule div_le_mono)
  with assms(1) show ?thesis by simp
qed

text \<open>
  C7. \<open>appendBack(sz)\<close> with \<open>sz > 0\<close> fails exactly when the pool holds fewer
  chunks than the call needs, that is fewer than the blocks of \<open>D\<close> bytes that the
  bytes not fitting behind \<open>m_end\<close> into the last block take up. When it fails, it
  fails with \<open>OutOfMemory\<close>, the buffer is what it was (block list, \<open>m_begin\<close>,
  \<open>m_end\<close>, iterators) and every chunk taken from the allocator is back in the pool
  (the pool was emptied; the chunks are back in reverse order). When it succeeds,
  exactly the chunks needed are taken from the pool, in order, and linked unchanged
  behind the old blocks; the old blocks keep their addresses and their bytes and are
  numbered anew from the id the last block had; the end of the buffer lies \<open>sz\<close> bytes
  behind the old end and inside the last block (\<open>0 < m_end \<le> D\<close>); \<open>m_begin\<close> is
  kept (or set to the start of the first block on the first allocation); and the
  iterator returned is linked at the tail of the iterator list and points to the old
  end, the start of the reservation (on the first allocation, to the start of the
  first new block).
\<close>

theorem appendBack_transactional:
  assumes "sz \<noteq> 0" and "0 < D" and "m_end buf \<le> D"
  shows "(length pool < blocks_needed D buf sz \<longrightarrow>
            appendBack D pool buf sz h = (Inl OutOfMemory, buf, rev pool))
       \<and> (blocks_needed D buf sz \<le> length pool \<longrightarrow>
            (\<exists>itr buf'.
               appendBack D pool buf sz h = (Inr itr, buf', drop (blocks_needed D buf sz) pool)
               \<and> m_blocks buf' =
                   renumber (if m_blocks buf = [] then 0 else bid (last (m_blocks buf)))
                     (m_blocks buf) @ take (blocks_needed D buf sz) pool
               \<and> map baddr (m_blocks buf')
                   = map baddr (m_blocks buf @ take (blocks_needed D buf sz) pool)
               \<and> map bdata (m_blocks buf')
                   = map bdata (m_blocks buf @ take (blocks_needed D buf sz) pool)
               \<and> m_iterators buf' = m_iterators buf @ [(h, itr)]
               \<and> 0 < m_end buf' \<and> m_end buf' \<le> D
               \<and> (m_blocks buf \<noteq> [] \<longrightarrow>
                     itr = \<lparr>m_block = baddr (last (m_blocks buf)), m_position = m_end buf\<rparr>
                   \<and> m_begin buf' = m_begin buf
                   \<and> (length (m_blocks buf') - 1) * D + m_end buf'
                       = (length (m_blocks buf) - 1) * D + m_end buf + sz)
               \<and> (m_blocks buf = [] \<longrightarrow>
                     0 < blocks_needed D buf sz
                   \<and> itr = \<lparr>m_block = baddr (hd pool), m_position = 0\<rparr>
                   \<and> m_begin buf' = 0
                   \<and> (length (m_blocks buf') - 1) * D + m_end buf' = sz)))"
proof -
  define left where "left = left_in_last D buf"
  define need where "need = blocks_needed D buf sz"
  define i0 where "i0 = (if m_blocks buf = [] then 0 else bid (last (m_blocks buf)))"
  have need_eq: "need = (sz - left + D - 1) div D"
    by (simp add: need_def left_def blocks_needed_def)
  have left_eq: "left = (if m_blocks buf = [] then 0 else D - m_end buf)"
    by (simp add: left_def left_in_last_def)
  obtain r pool' where nb: "newBlocks D pool [] (m_end buf) sz left = (r, pool')"
    by (cases "newBlocks D pool [] (m_end buf) sz left")
  show ?thesis
  proof (cases r)
    case (Inl err)
    from newBlocks_failure [OF nb [unfolded Inl]]
    have e: "err = OutOfMemory" "pool' = rev pool" by simp_all
    from newBlocks_failure_room [OF nb [unfolded Inl]]
    have "length pool < need"
      unfolding need_eq by (rule needed_more [OF assms(2)])
    moreover have "appendBack D pool buf sz h = (Inl OutOfMemory, buf, rev pool)"
      using assms(1) nb Inl e
      by (simp add: appendBack_def appendBack_body_def Let_def left_eq)
    ultimately show ?thesis by (simp add: need_def)
  next
    case (Inr t)
    obtain nbs ne' sz' where t: "t = (nbs, ne', sz')" by (cases t)
    from newBlocks_success [OF nb [unfolded Inr t]] have new:
      "pool = nbs @ pool'"
      "nbs = [] \<longrightarrow> ne' = m_end buf \<and> sz' = sz \<and> sz \<le> left"
      "nbs \<noteq> [] \<longrightarrow> ne' = 0 \<and> 0 < sz' \<and> sz' \<le> D \<and> sz = left + (length nbs - 1) * D + sz'"
      by auto
    have len: "length nbs = need"
    proof (cases "nbs = []")
      case True
      with new(2) assms(2) show ?thesis by (simp add: need_eq)
    next
      case False
      with new(3) have s: "0 < sz'" "sz' \<le> D" "sz = left + (length nbs - 1) * D + sz'"
        by simp_all
      have "sz - left + D - 1 = (length nbs - 1) * D + sz' + D - 1"
        using s(3) by simp
      with ceil_div_blocks [OF assms(2) s(1,2), of "length nbs - 1"] False
      show ?thesis by (cases nbs) (simp_all add: need_eq)
    qed
    have tk: "take need pool = nbs" "drop need pool = pool'"
      using new(1) len by simp_all
    have le: "need \<le> length pool" using new(1) len by simp
    have endpos: "0 < ne' + sz' \<and> ne' + sz' \<le> D"
    proof (cases "nbs = []")
      case True
      with new(2) assms(1,3) show ?thesis
        by (auto simp: left_eq split: if_splits)
    next
      case False
      with new(3) show ?thesis by simp
    qed
    have goal: "\<exists>itr buf'.
               appendBack D pool buf sz h = (Inr itr, buf', pool')
               \<and> m_blocks buf' = renumber i0 (m_blocks buf) @ nbs
               \<and> map baddr (m_blocks buf') = map baddr (m_blocks buf @ nbs)
               \<and> map bdata (m_blocks buf') = map bdata (m_blocks buf @ nbs)
               \<and> m_iterators buf' = m_iterators buf @ [(h, itr)]
               \<and> 0 < m_end buf' \<and> m_end buf' \<le> D
               \<and> (m_blocks buf \<noteq> [] \<longrightarrow>
                     itr = \<lparr>m_block = baddr (last (m_blocks buf)), m_position = m_end buf\<rparr>
                   \<and> m_begin buf' = m_begin buf
                   \<and> (length (m_blocks buf') - 1) * D + m_end buf'
                       = (length (m_blocks buf) - 1) * D + m_end buf + sz)
               \<and> (m_blocks buf = [] \<longrightarrow>
                     0 < need
                   \<and> itr = \<lparr>m_block = baddr (hd pool), m_position = 0\<rparr>
                   \<and> m_begin buf' = 0
                   \<and> (length (m_blocks buf') - 1) * D + m_end buf' = sz)"
    proof (cases "m_blocks buf = []")
      case True
      with assms(1) new left_eq have ne: "nbs \<noteq> []" by auto
      then obtain c cs where c: "nbs = c # cs" by (cases nbs) auto
      let ?itr = "\<lparr>m_block = baddr c, m_position = 0\<rparr>"
      let ?buf' = "new_iterator (buf\<lparr>m_blocks := nbs, m_begin := 0, m_end := ne' + sz'\<rparr>) h ?itr False"
      have run: "appendBack D pool buf sz h = (Inr ?itr, ?buf', pool')"
        using assms(1) nb Inr t True c
        by (simp add: appendBack_def appendBack_body_def Let_def left_eq)
      have hdp: "hd pool = c" using new(1) c by simp
      have "(length nbs - 1) * D + (ne' + sz') = sz"
        using new(3) ne True by (simp add: left_eq)
      moreover have "0 < need" using ne len by (cases nbs) auto
      ultimately show ?thesis
        using run True endpos hdp
        by (intro exI [of _ ?itr] exI [of _ ?buf']) (simp add: new_iterator_def i0_def)
    next
      case False
      then obtain b0 bs0 where b0: "renumber i0 (m_blocks buf) @ nbs = b0 # bs0"
        by (cases "renumber i0 (m_blocks buf) @ nbs") auto
      let ?itr = "\<lparr>m_block = baddr (last (m_blocks buf)), m_position = m_end buf\<rparr>"
      let ?buf' = "new_iterator (buf\<lparr>m_blocks := renumber i0 (m_blocks buf) @ nbs,
                m_end := ne' + sz'\<rparr>) h ?itr False"
      have run: "appendBack D pool buf sz h = (Inr ?itr, ?buf', pool')"
        using assms(1) nb Inr t False b0
        by (simp add: appendBack_def appendBack_body_def Let_def left_eq i0_def)
      have lenpos: "length (m_blocks buf) \<ge> 1" using False by (cases "m_blocks buf") auto
      have lm: "left + m_end buf = D" using False assms(3) by (simp add: left_eq)
      have pos: "(length (m_blocks buf) + length nbs - 1) * D + (ne' + sz')
              = (length (m_blocks buf) - 1) * D + m_end buf + sz"
      proof (cases "nbs = []")
        case True
        with new(2) show ?thesis by simp
      next
        case nn: False
        with new have s: "ne' = 0" "sz = left + (length nbs - 1) * D + sz'"
          by auto
        have lennb: "length nbs \<ge> 1" using nn by (cases nbs) auto
        have "(length (m_blocks buf) + length nbs - 1) * D
               = (length (m_blocks buf) - 1) * D + D + (length nbs - 1) * D"
          using lenpos lennb by (cases "length (m_blocks buf)"; cases "length nbs") (auto simp: algebra_simps)
        with lm s show ?thesis by arith
      qed
      from run False endpos pos show ?thesis
        by (intro exI [of _ ?itr] exI [of _ ?buf']) (simp add: new_iterator_def)
    qed
    from goal le show ?thesis
      unfolding tk [symmetric] need_def i0_def by simp
  qed
qed


theorem appendBack_transactional_witness:
  "(17::nat) \<noteq> 0 \<and> (9::nat) \<noteq> 0 \<and> (0::nat) < 8
   \<and> m_end buf_two \<le> 8 \<and> m_end buf_empty \<le> 8
   \<and> m_blocks buf_two \<noteq> [] \<and> m_blocks buf_empty = []
   \<and> length [chunk300] < blocks_needed 8 buf_two 17
   \<and> blocks_needed 8 buf_two 9 \<le> length [chunk300]
   \<and> blocks_needed 8 buf_empty 9 \<le> length stale_pool
   \<and> appendBack 8 [chunk300] buf_two 17 5 = (Inl OutOfMemory, buf_two, rev [chunk300])
   \<and> (\<exists>itr buf'. appendBack 8 [chunk300] buf_two 9 5 = (Inr itr, buf', [])
         \<and> map baddr (m_blocks buf') = [100, 200, 300]
         \<and> m_iterators buf' = m_iterators buf_two @ [(5, itr)]
         \<and> itr = \<lparr>m_block = 200, m_position = 1\<rparr>
         \<and> m_begin buf' = m_begin buf_two \<and> m_end buf' = 2)
   \<and> (\<exists>itr buf'. appendBack 8 stale_pool buf_empty 9 5 = (Inr itr, buf', [])
         \<and> m_blocks buf' = stale_pool
         \<and> m_iterators buf' = [(5, itr)]
         \<and> itr = \<lparr>m_block = 300, m_position = 0\<rparr>
         \<and> m_begin buf' = 0 \<and> m_end buf' = 1)"
proof -
  have pre: "(17::nat) \<noteq> 0" "(9::nat) \<noteq> 0" "(0::nat) < 8"
    "m_end buf_two \<le> 8" "m_end buf_empty \<le> 8"
    and shape: "m_blocks buf_two \<noteq> []" "m_blocks buf_empty = []"
    and n1: "length [chunk300] < blocks_needed 8 buf_two 17"
    and n2: "blocks_needed 8 buf_two 9 \<le> length [chunk300]"
    and n3: "blocks_needed 8 buf_empty 9 \<le> length stale_pool"
    by (simp_all add: buf_two_def buf_empty_def stale_pool_def blocks_needed_def
        left_in_last_def)
  have v2: "blocks_needed 8 buf_two 9 = 1" and v3: "blocks_needed 8 buf_empty 9 = 2"
    by (simp_all add: buf_two_def buf_empty_def blocks_needed_def left_in_last_def)
  from appendBack_transactional [OF pre(1) pre(3) pre(4), of "[chunk300]" 5,
      THEN conjunct1, THEN mp, OF n1]
  have fail: "appendBack 8 [chunk300] buf_two 17 5 = (Inl OutOfMemory, buf_two, rev [chunk300])" .
  from appendBack_transactional [OF pre(2) pre(3) pre(4), of "[chunk300]" 5,
      THEN conjunct2, THEN mp, OF n2]
  obtain itr buf' where a:
      "appendBack 8 [chunk300] buf_two 9 5 = (Inr itr, buf', drop (blocks_needed 8 buf_two 9) [chunk300])"
      "map baddr (m_blocks buf') = map baddr (m_blocks buf_two @ take (blocks_needed 8 buf_two 9) [chunk300])"
      "m_iterators buf' = m_iterators buf_two @ [(5, itr)]"
      "m_blocks buf_two \<noteq> [] \<longrightarrow>
         itr = \<lparr>m_block = baddr (last (m_blocks buf_two)), m_position = m_end buf_two\<rparr>
         \<and> m_begin buf' = m_begin buf_two
         \<and> (length (m_blocks buf') - 1) * 8 + m_end buf'
              = (length (m_blocks buf_two) - 1) * 8 + m_end buf_two + 9"
    by blast
  have "length (map baddr (m_blocks buf')) = length (map baddr (m_blocks buf_two @ [chunk300]))"
    using a(2) unfolding v2 by simp
  then have la: "length (m_blocks buf') = 3"
    by (simp add: buf_two_def)
  from a(4) shape(1) la have a4: "itr = \<lparr>m_block = 200, m_position = 1\<rparr>"
      "m_begin buf' = m_begin buf_two" "m_end buf' = 2"
    by (simp_all add: buf_two_def blk_def)
  have succ: "\<exists>itr buf'. appendBack 8 [chunk300] buf_two 9 5 = (Inr itr, buf', [])
         \<and> map baddr (m_blocks buf') = [100, 200, 300]
         \<and> m_iterators buf' = m_iterators buf_two @ [(5, itr)]
         \<and> itr = \<lparr>m_block = 200, m_position = 1\<rparr>
         \<and> m_begin buf' = m_begin buf_two \<and> m_end buf' = 2"
    using a(1,2,3) a4 unfolding v2
    by (intro exI [of _ itr] exI [of _ buf']) (simp add: buf_two_def blk_def chunk300_def)
  from appendBack_transactional [OF pre(2) pre(3) pre(5), of stale_pool 5,
      THEN conjunct2, THEN mp, OF n3]
  obtain itr2 buf2 where b:
      "appendBack 8 stale_pool buf_empty 9 5 = (Inr itr2, buf2, drop (blocks_needed 8 buf_empty 9) stale_pool)"
      "m_blocks buf2 =
         renumber (if m_blocks buf_empty = [] then 0 else bid (last (m_blocks buf_empty)))
           (m_blocks buf_empty) @ take (blocks_needed 8 buf_empty 9) stale_pool"
      "m_iterators buf2 = m_iterators buf_empty @ [(5, itr2)]"
      "m_blocks buf_empty = [] \<longrightarrow>
         0 < blocks_needed 8 buf_empty 9
         \<and> itr2 = \<lparr>m_block = baddr (hd stale_pool), m_position = 0\<rparr>
         \<and> m_begin buf2 = 0
         \<and> (length (m_blocks buf2) - 1) * 8 + m_end buf2 = 9"
    by blast
  from b(2) have b2: "m_blocks buf2 = stale_pool"
    unfolding v3 by (simp add: buf_empty_def stale_pool_def)
  from b(4) shape(2) b2 have b4: "itr2 = \<lparr>m_block = 300, m_position = 0\<rparr>"
      "m_begin buf2 = 0" "m_end buf2 = 1"
    by (simp_all add: stale_pool_def blk_def)
  have first: "\<exists>itr buf'. appendBack 8 stale_pool buf_empty 9 5 = (Inr itr, buf', [])
         \<and> m_blocks buf' = stale_pool
         \<and> m_iterators buf' = [(5, itr)]
         \<and> itr = \<lparr>m_block = 300, m_position = 0\<rparr>
         \<and> m_begin buf' = 0 \<and> m_end buf' = 1"
    using b(1,3) b2 b4 unfolding v3
    by (intro exI [of _ itr2] exI [of _ buf2]) (simp add: buf_empty_def stale_pool_def)
  from pre shape n1 n2 n3 fail succ first show ?thesis
    by blast
qed

section \<open>Buffer::insert and Buffer::release on concrete buffers\<close>

text \<open>
  The buffer \<open>buf_two\<close> holds the bytes 1 to 9 in two blocks of eight bytes; the
  iterator with handle 1 is at position 1, the iterator with handle 2 at the end.
\<close>

lemma insert_buf_two:
  "insert_buf 8 [] buf_two 1 2 = Inr (buf_two_inserted, [])"
  by code_simp

lemma release_buf_two_inserted:
  "release 8 [] buf_two_inserted 1 2 = Inr (buf_two_released, [])"
  by code_simp

lemma insert_buf_one:
  "insert_buf 8 [] buf_one 1 1 = Inr (buf_one_inserted, [])"
  by code_simp

text \<open>
  C4. The claim is that \<open>insert(it, n)\<close> leaves the bytes in front of \<open>it\<close> alone,
  shifts the bytes from \<open>it\<close> on by \<open>n\<close>, moves the iterators behind \<open>it\<close> by \<open>n\<close>
  and leaves the iterators at the position of \<open>it\<close> in place. After
  \<open>insert(it, 2)\<close> at position 1 of \<open>buf_two\<close> the bytes 2 to 6 ought to be at the
  positions 3 to 7; the code leaves the bytes 1 to 5 there. After \<open>insert(it, 1)\<close> in
  \<open>buf_one\<close>, where \<open>it\<close> is the last iterator of the list, \<open>it\<close> itself has moved
  from offset 2 to offset 3.
\<close>

theorem insert_shifts_wrong_bytes:
  "contents 8 buf_two = [1, 2, 3, 4, 5, 6, 7, 8, 9]
   \<and> map_of (m_iterators buf_two) 1 = Some (itr_at 100 1)
   \<and> position 8 buf_two (itr_at 100 1) = 1
   \<and> insert_buf 8 [] buf_two 1 2 = Inr (buf_two_inserted, [])
   \<and> contents 8 buf_two_inserted = [1, 2, 3, 1, 2, 3, 4, 5, 7, 8, 9]
   \<and> map_of (m_iterators buf_one) 1 = Some (itr_at 100 2)
   \<and> insert_buf 8 [] buf_one 1 1 = Inr (buf_one_inserted, [])
   \<and> map_of (m_iterators buf_one_inserted) 1 = Some (itr_at 100 3)"
proof -
  have "contents 8 buf_two = [1, 2, 3, 4, 5, 6, 7, 8, 9]"
    by (simp add: contents_def buf_two_def blk_def bytes8_def)
  moreover have "position 8 buf_two (itr_at 100 1) = 1"
    by (simp add: position_def buf_two_def blk_def itr_at_def blocks_upto_def)
  moreover have "contents 8 buf_two_inserted = [1, 2, 3, 1, 2, 3, 4, 5, 7, 8, 9]"
    by (simp add: contents_def buf_two_inserted_def blk_def)
  moreover have "map_of (m_iterators buf_two) 1 = Some (itr_at 100 1)"
    "map_of (m_iterators buf_one) 1 = Some (itr_at 100 2)"
    "map_of (m_iterators buf_one_inserted) 1 = Some (itr_at 100 3)"
    by (simp_all add: buf_two_def buf_one_def buf_one_inserted_def)
  ultimately show ?thesis
    using insert_buf_two insert_buf_one by simp
qed

text \<open>
  C3. The claim is that \<open>insert(it, n)\<close> followed by \<open>release(it, n)\<close> changes neither
  the bytes nor the positions of the iterators. On \<open>buf_two\<close>, with \<open>it\<close> at position
  1 and \<open>n = 2\<close>, both calls return, and the buffer first holds the bytes 1 to 9 and
  afterwards the bytes 1, 1, 2, 3, 4, 5, 7, 8, 9.
\<close>

theorem insert_release_changes_bytes:
  "contents 8 buf_two = [1, 2, 3, 4, 5, 6, 7, 8, 9]
   \<and> insert_buf 8 [] buf_two 1 2 = Inr (buf_two_inserted, [])
   \<and> release 8 [] buf_two_inserted 1 2 = Inr (buf_two_released, [])
   \<and> contents 8 buf_two_released = [1, 1, 2, 3, 4, 5, 7, 8, 9]"
proof -
  have "contents 8 buf_two = [1, 2, 3, 4, 5, 6, 7, 8, 9]"
    by (simp add: contents_def buf_two_def blk_def bytes8_def)
  moreover have "contents 8 buf_two_released = [1, 1, 2, 3, 4, 5, 7, 8, 9]"
    by (simp add: contents_def buf_two_released_def blk_def)
  ultimately show ?thesis
    using insert_buf_two release_buf_two_inserted by simp
qed

section \<open>Buffer::set and Buffer::get\<close>













text \<open>
  The full block \<open>buf_full\<close> with \<open>it\<close> at offset 7: one byte remains up to
  \<open>end()\<close>, \<open>has(it, 2)\<close> holds all the same, \<open>set\<close> of two bytes writes the first
  into the block and the second behind the list head, and \<open>get\<close> reads both back.
\<close>

lemma set_through_list_head:
  "has 8 buf_full (itr_at 100 7) 2 = Inr True
   \<and> bytes_to_end 8 buf_full (itr_at 100 7) = 1
   \<and> set_buf 8 buf_full hmem8 (itr_at 100 7) [9, 9]
       = Inr (buf_full\<lparr>m_blocks := [blk 100 0 [1, 2, 3, 4, 5, 6, 7, 9]]\<rparr>,
              [9, 0, 0, 0, 0, 0, 0, 0])
   \<and> get_buf 8 (buf_full\<lparr>m_blocks := [blk 100 0 [1, 2, 3, 4, 5, 6, 7, 9]]\<rparr>)
        [9, 0, 0, 0, 0, 0, 0, 0] (itr_at 100 7) 2 = Inr [9, 9]"
  by code_simp



section \<open>Buffer::getIOV\<close>

lemma getIOV_loop_zero [simp]: "getIOV_loop D e bs pos 0 = []"
  by (cases bs) auto

lemma getIOV_loop_bases:
  "map (\<lambda>v. fst (iov_base v)) (getIOV_loop D e bs pos n) = take n (map baddr bs)"
proof (induction bs arbitrary: pos n)
  case Nil
  then show ?case by simp
next
  case (Cons b bs)
  then show ?case by (cases n) auto
qed

lemma getIOV_loop_inside:
  "pos \<le> D \<Longrightarrow> e \<le> D \<Longrightarrow> (length bs = 1 \<longrightarrow> pos \<le> e) \<Longrightarrow>
     \<forall>v \<in> set (getIOV_loop D e bs pos n). snd (iov_base v) + iov_len v \<le> D"
proof (induction bs arbitrary: pos n)
  case Nil
  then show ?case by simp
next
  case (Cons b bs)
  show ?case
  proof (cases n)
    case 0
    then show ?thesis by simp
  next
    case (Suc m)
    show ?thesis
    proof (cases "bs = []")
      case True
      with Suc Cons.prems show ?thesis by (simp add: size_t_diff_def)
    next
      case False
      from Cons.IH [of 0 m] Cons.prems(2)
      have "\<forall>v \<in> set (getIOV_loop D e bs 0 m). snd (iov_base v) + iov_len v \<le> D"
        by simp
      with False Suc Cons.prems(1) show ?thesis by (simp add: size_t_diff_def)
    qed
  qed
qed

lemma getIOV_loop_sum:
  "bs \<noteq> [] \<Longrightarrow> pos \<le> D \<Longrightarrow> e \<le> D \<Longrightarrow> (length bs = 1 \<longrightarrow> pos \<le> e) \<Longrightarrow>
     sum_list (map iov_len (getIOV_loop D e bs pos n)) =
       (if n = 0 then 0
        else if length bs \<le> n then (length bs - 1) * D + e - pos
        else n * D - pos)"
proof (induction bs arbitrary: pos n)
  case Nil
  then show ?case by simp
next
  case (Cons b bs)
  show ?case
  proof (cases n)
    case 0
    then show ?thesis by simp
  next
    case (Suc m)
    show ?thesis
    proof (cases "bs = []")
      case True
      with Suc Cons.prems show ?thesis by (simp add: size_t_diff_def)
    next
      case False
      from Cons.IH [of 0 m] False Cons.prems(3)
      have ih: "sum_list (map iov_len (getIOV_loop D e bs 0 m)) =
          (if m = 0 then 0 else if length bs \<le> m then (length bs - 1) * D + e else m * D)"
        by simp
      have l: "length bs \<ge> 1" using False by (cases bs) auto
      show ?thesis
      proof (cases "m = 0")
        case True
        with False Suc Cons.prems(2) l show ?thesis by (simp add: size_t_diff_def)
      next
        case m: False
        show ?thesis
        proof (cases "length bs \<le> m")
          case True
          with ih m have "sum_list (map iov_len (getIOV_loop D e bs 0 m)) = (length bs - 1) * D + e"
            by simp
          moreover have "D - pos + ((length bs - 1) * D + e) = length bs * D + e - pos"
            using l Cons.prems(2) by (cases "length bs") (auto simp: algebra_simps)
          ultimately show ?thesis using False Suc True Cons.prems(2)
            by (simp add: size_t_diff_def)
        next
          case nle: False
          with ih m have "sum_list (map iov_len (getIOV_loop D e bs 0 m)) = m * D"
            by simp
          moreover have "D - pos + m * D = D + m * D - pos"
            using Cons.prems(2) by simp
          ultimately show ?thesis using False Suc nle Cons.prems(2)
            by (simp add: size_t_diff_def)
        qed
      qed
    qed
  qed
qed

text \<open>
  C9 (amended). For every buffer state and every live iterator \<open>it\<close>, \<open>getIOV(it, vecs,
  max)\<close> fills \<open>min(max, k)\<close> entries, \<open>k\<close> being the number of blocks from the block of
  \<open>it\<close> to the last block, and returns that count. The entries lie in pairwise
  different blocks, each inside its block, so no two of them overlap. Their lengths
  sum to the number of bytes from \<open>it\<close> to \<open>end()\<close> when \<open>max\<close> is at least \<open>k\<close>;
  when \<open>max\<close> is smaller they sum to the bytes from \<open>it\<close> to the end of the
  \<open>max\<close>-th of these blocks.
\<close>

theorem getIOV_covers:
  assumes "buffer_ok D buf" and "iterator_ok D buf itr"
  shows "\<exists>vecs. getIOV D buf itr max_size = Inr (length vecs, vecs)
      \<and> length vecs = min max_size (length (blocks_from (m_blocks buf) (m_block itr)))
      \<and> (\<forall>i j. i < j \<longrightarrow> j < length vecs \<longrightarrow> \<not> iov_overlap (vecs ! i) (vecs ! j))
      \<and> (\<forall>v \<in> set vecs. snd (iov_base v) + iov_len v \<le> D)
      \<and> sum_list (map iov_len vecs) =
          (if max_size = 0 then 0
           else if length (blocks_from (m_blocks buf) (m_block itr)) \<le> max_size
           then bytes_to_end D buf itr
           else max_size * D - m_position itr)"
proof -
  let ?bs = "blocks_from (m_blocks buf) (m_block itr)"
  let ?vecs = "getIOV_loop D (m_end buf) ?bs (m_position itr) max_size"
  have ne: "?bs \<noteq> []" and pos: "m_position itr \<le> D"
    and last: "length ?bs = 1 \<longrightarrow> m_position itr \<le> m_end buf"
    using assms(2) by (simp_all add: iterator_ok_def)
  have e: "m_end buf \<le> D" using assms(1) by (simp add: buffer_ok_def)
  have run: "getIOV D buf itr max_size = Inr (length ?vecs, ?vecs)"
    using ne by (cases ?bs) (simp_all add: getIOV_def Let_def)
  have bases: "map (\<lambda>v. fst (iov_base v)) ?vecs = take max_size (map baddr ?bs)"
    by (rule getIOV_loop_bases)
  then have len: "length ?vecs = min max_size (length ?bs)"
    by (metis length_map length_take min.commute)
  have "distinct (map baddr (m_blocks buf))"
    using assms(1) by (simp add: buffer_ok_def)
  then have "distinct (map baddr ?bs)"
    unfolding blocks_from_def
    by (metis (no_types, lifting) distinct_append map_append takeWhile_dropWhile_id)
  then have dist: "distinct (map (\<lambda>v. fst (iov_base v)) ?vecs)"
    using bases by (simp add: distinct_take)
  have disj: "\<not> iov_overlap (?vecs ! i) (?vecs ! j)" if "i < j" "j < length ?vecs" for i j
  proof -
    from that dist have "map (\<lambda>v. fst (iov_base v)) ?vecs ! i \<noteq> map (\<lambda>v. fst (iov_base v)) ?vecs ! j"
      by (simp add: nth_eq_iff_index_eq del: nth_map)
    with that show ?thesis by (simp add: iov_overlap_def)
  qed
  have inside: "\<forall>v \<in> set ?vecs. snd (iov_base v) + iov_len v \<le> D"
    using pos e last by (rule getIOV_loop_inside)
  have total: "sum_list (map iov_len ?vecs) =
          (if max_size = 0 then 0
           else if length ?bs \<le> max_size then bytes_to_end D buf itr
           else max_size * D - m_position itr)"
    using getIOV_loop_sum [OF ne pos e last] by (simp add: bytes_to_end_def)
  from run len disj inside total show ?thesis
    by (intro exI [of _ ?vecs]) simp
qed

theorem getIOV_covers_witness:
  "buffer_ok 8 buf_two \<and> iterator_ok 8 buf_two (itr_at 100 1)
   \<and> getIOV 8 buf_two (itr_at 100 1) 5
       = Inr (2, [\<lparr>iov_base = (100, 1), iov_len = 7\<rparr>, \<lparr>iov_base = (200, 0), iov_len = 1\<rparr>])
   \<and> bytes_to_end 8 buf_two (itr_at 100 1) = 8
   \<and> (\<exists>vecs. getIOV 8 buf_two (itr_at 100 1) 5 = Inr (length vecs, vecs)
         \<and> sum_list (map iov_len vecs) = bytes_to_end 8 buf_two (itr_at 100 1)
         \<and> (\<forall>i j. i < j \<longrightarrow> j < length vecs \<longrightarrow> \<not> iov_overlap (vecs ! i) (vecs ! j)))"
proof -
  have ok: "buffer_ok 8 buf_two" "iterator_ok 8 buf_two (itr_at 100 1)"
    by (simp_all add: buffer_ok_def iterator_ok_def buf_two_def blk_def itr_at_def
        blocks_from_def bytes8_def)
  have k: "length (blocks_from (m_blocks buf_two) (m_block (itr_at 100 1))) = 2"
    by (simp add: buf_two_def blk_def itr_at_def blocks_from_def)
  have run: "getIOV 8 buf_two (itr_at 100 1) 5
       = Inr (2, [\<lparr>iov_base = (100, 1), iov_len = 7\<rparr>, \<lparr>iov_base = (200, 0), iov_len = 1\<rparr>])"
    by code_simp
  have b: "bytes_to_end 8 buf_two (itr_at 100 1) = 8"
    by (simp add: bytes_to_end_def buf_two_def blk_def itr_at_def blocks_from_def)
  from getIOV_covers [OF ok, of 5] k
  have "\<exists>vecs. getIOV 8 buf_two (itr_at 100 1) 5 = Inr (length vecs, vecs)
         \<and> sum_list (map iov_len vecs) = bytes_to_end 8 buf_two (itr_at 100 1)
         \<and> (\<forall>i j. i < j \<longrightarrow> j < length vecs \<longrightarrow> \<not> iov_overlap (vecs ! i) (vecs ! j))"
    by auto
  with ok run b show ?thesis by simp
qed

text \<open>
  The claim as it is worded has the lengths sum to the bytes up to \<open>end()\<close> for every
  \<open>max\<close>. With \<open>max = 1\<close> and two blocks to cover, one entry of 7 bytes is filled
  while 8 bytes remain.
\<close>

theorem getIOV_max_size_counterexample:
  "getIOV 8 buf_two (itr_at 100 1) 1 = Inr (1, [\<lparr>iov_base = (100, 1), iov_len = 7\<rparr>])
   \<and> bytes_to_end 8 buf_two (itr_at 100 1) = 8"
  by (simp add: getIOV_def bytes_to_end_def buf_two_def blk_def itr_at_def blocks_from_def
      size_t_diff_def)

section \<open>The order of iterators\<close>

lemma blocks_from_nth:
  "blocks_from bs a \<noteq> [] \<Longrightarrow>
     length (blocks_upto bs a) < length bs
     \<and> hd (blocks_from bs a) = bs ! length (blocks_upto bs a)
     \<and> baddr (bs ! length (blocks_upto bs a)) = a"
proof (induction bs)
  case Nil
  then show ?case by (simp add: blocks_from_def)
next
  case (Cons b bs)
  then show ?case by (auto simp: blocks_from_def blocks_upto_def)
qed

lemma block_id_nth:
  "blocks_from bs a \<noteq> [] \<Longrightarrow> block_id bs a = Some (bid (bs ! length (blocks_upto bs a)))"
  using blocks_from_nth [of bs a]
  by (cases "blocks_from bs a") (auto simp: block_id_def)

lemma ids_increasing_nth:
  assumes "ids_increasing bs" "i < length bs" "j < length bs"
  shows "bid (bs ! i) < bid (bs ! j) \<longleftrightarrow> i < j"
    and "bid (bs ! i) = bid (bs ! j) \<longleftrightarrow> i = j"
proof -
  have lt: "bid (bs ! p) < bid (bs ! q)" if "p < q" "q < length bs" for p q
    using assms(1) that by (simp add: ids_increasing_def sorted_wrt_iff_nth_less)
  show "bid (bs ! i) < bid (bs ! j) \<longleftrightarrow> i < j"
    using lt [of i j] lt [of j i] assms(2,3)
    by (metis less_asym' linorder_neqE_nat order_less_irrefl)
  show "bid (bs ! i) = bid (bs ! j) \<longleftrightarrow> i = j"
    using lt [of i j] lt [of j i] assms(2,3)
    by (metis linorder_neqE_nat order_less_irrefl)
qed



text \<open>
  What \<open>operator <\<close> computes while the ids of the blocks grow strictly along the
  block list: for live iterators \<open>a\<close> and \<open>b\<close>, \<open>a < b\<close> holds exactly when the block
  of \<open>a\<close> comes before the block of \<open>b\<close> in the block list, or both point into the
  same block and the offset of \<open>a\<close> is the smaller one; so \<open>a < b\<close> holds iff the
  position of \<open>a\<close> is less than that of \<open>b\<close> when both offsets are below
  \<open>DATA_SIZE\<close>.
\<close>

lemma iterator_less_by_block_order:
  assumes "ids_increasing (m_blocks buf)"
    and "blocks_from (m_blocks buf) (m_block a) \<noteq> []"
    and "blocks_from (m_blocks buf) (m_block b) \<noteq> []"
  shows "iterator_less (m_blocks buf) a b =
           Some (length (blocks_upto (m_blocks buf) (m_block a))
                   < length (blocks_upto (m_blocks buf) (m_block b))
                 \<or> (m_block a = m_block b \<and> m_position a < m_position b))
       \<and> (m_position a < D \<and> m_position b < D \<longrightarrow>
            iterator_less (m_blocks buf) a b = Some (position D buf a < position D buf b))
       \<and> (m_position b \<le> D \<and> position D buf a < position D buf b \<longrightarrow>
            iterator_less (m_blocks buf) a b = Some True)
       \<and> (m_position a \<le> D \<and> iterator_less (m_blocks buf) a b = Some True \<longrightarrow>
            position D buf a \<le> position D buf b)"
proof -
  define i where "i = length (blocks_upto (m_blocks buf) (m_block a))"
  define j where "j = length (blocks_upto (m_blocks buf) (m_block b))"
  define pa where "pa = m_position a"
  define pb where "pb = m_position b"
  note na = blocks_from_nth [OF assms(2), folded i_def]
    and nb = blocks_from_nth [OF assms(3), folded j_def]
  have s1: "i = j" if "m_block a = m_block b"
    using that by (simp add: i_def j_def)
  have s2: "m_block a = m_block b" if "i = j"
  proof -
    from na have "baddr (m_blocks buf ! i) = m_block a" by simp
    moreover from nb that have "baddr (m_blocks buf ! i) = m_block b" by simp
    ultimately show ?thesis by simp
  qed
  have ida: "block_id (m_blocks buf) (m_block a) = Some (bid (m_blocks buf ! i))"
    and idb: "block_id (m_blocks buf) (m_block b) = Some (bid (m_blocks buf ! j))"
    using assms(2,3) by (simp_all add: block_id_nth i_def j_def)
  have il: "i < length (m_blocks buf)" and jl: "j < length (m_blocks buf)"
    using na nb by simp_all
  note lt = ids_increasing_nth(1) [OF assms(1) il jl]
    and eq = ids_increasing_nth(2) [OF assms(1) il jl]
  have unf: "iterator_less (m_blocks buf) a b =
      Some (bid (m_blocks buf ! i) < bid (m_blocks buf ! j)
            \<or> (bid (m_blocks buf ! i) = bid (m_blocks buf ! j) \<and> ptr_less a b))"
    by (simp add: iterator_less_def ida idb)
  have pl: "ptr_less a b \<longleftrightarrow> pa < pb" if "i = j"
    using s2 [OF that] by (simp add: ptr_less_def pa_def pb_def)
  have key: "iterator_less (m_blocks buf) a b = Some (i < j \<or> (i = j \<and> pa < pb))"
    unfolding unf lt eq using pl by blast
  have posa: "position D buf a = i * D + pa" and posb: "position D buf b = j * D + pb"
    by (simp_all add: position_def i_def j_def pa_def pb_def)
  have step: "Suc p * D \<le> q * D" if "p < q" for p q :: nat
    using that by (intro mult_le_mono1) simp
  have c1: "iterator_less (m_blocks buf) a b =
           Some (i < j \<or> (m_block a = m_block b \<and> pa < pb))"
    using key s1 s2 by auto
  have c2: "iterator_less (m_blocks buf) a b = Some (position D buf a < position D buf b)"
    if "pa < D" "pb < D"
  proof -
    consider "i < j" | "i = j" | "j < i" by arith
    then show ?thesis
    proof cases
      case 1
      with step [of i j] that(1) have "i * D + pa < j * D + pb" by simp
      with 1 key posa posb show ?thesis by simp
    next
      case 2
      with key posa posb show ?thesis by simp
    next
      case 3
      with step [of j i] that(2) have "\<not> i * D + pa < j * D + pb" by simp
      with 3 key posa posb show ?thesis by simp
    qed
  qed
  have c3: "iterator_less (m_blocks buf) a b = Some True"
    if "pb \<le> D" "position D buf a < position D buf b"
  proof -
    consider "i < j" | "i = j" | "j < i" by arith
    then show ?thesis
    proof cases
      case 1
      with key show ?thesis by simp
    next
      case 2
      with key posa posb that(2) show ?thesis by simp
    next
      case 3
      with step [of j i] that(1) have "\<not> i * D + pa < j * D + pb" by simp
      with that(2) posa posb show ?thesis by simp
    qed
  qed
  have c4: "position D buf a \<le> position D buf b"
    if "pa \<le> D" "iterator_less (m_blocks buf) a b = Some True"
  proof -
    from that(2) key have "i < j \<or> (i = j \<and> pa < pb)" by simp
    then show ?thesis
    proof
      assume "i < j"
      with step [of i j] that(1) show ?thesis by (simp add: posa posb)
    next
      assume "i = j \<and> pa < pb"
      then show ?thesis by (simp add: posa posb)
    qed
  qed
  from c1 c2 c3 c4 show ?thesis
    unfolding i_def j_def pa_def pb_def by blast
qed

text \<open>
  Iterators that share a position are not ordered by \<open><\<close>: after two calls of
  \<open>begin()\<close> the iterator created last (handle 2) precedes the first one (handle 1) in
  the list, both are at position 0, and neither is less than the other.
\<close>

lemma equal_iterators_unordered:
  "begin_it buf_plain 1 = Inr (buf_plain\<lparr>m_iterators := [(1, itr_at 100 0)]\<rparr>)
   \<and> begin_it (buf_plain\<lparr>m_iterators := [(1, itr_at 100 0)]\<rparr>) 2 = Inr buf_two_begins
   \<and> map_of (m_iterators buf_two_begins) 2 = Some (itr_at 100 0)
   \<and> map_of (m_iterators buf_two_begins) 1 = Some (itr_at 100 0)
   \<and> precedes (m_iterators buf_two_begins) 2 1
   \<and> iterator_less (m_blocks buf_two_begins) (itr_at 100 0) (itr_at 100 0) = Some False"
  by (simp add: begin_it_def new_iterator_def buf_plain_def buf_two_begins_def blk_def
      itr_at_def precedes_def iters_upto_def iterator_less_def block_id_def blocks_from_def
      ptr_less_def)

text \<open>
  The loop of \<open>appendBack\<close> gives the blocks that are in the list consecutive ids,
  beginning with the id that the last block had.
\<close>

lemma renumber_bid:
  "k < length bs \<Longrightarrow> bid (renumber i bs ! k) = i + of_nat k"
proof (induction bs arbitrary: i k)
  case Nil
  then show ?case by simp
next
  case (Cons b bs)
  then show ?case by (cases k) (simp_all add: algebra_simps)
qed

text \<open>
  C2. The claim is that in every reachable state \<open>a < b\<close> agrees with the order of
  the positions and with the order of the iterator list, also after \<open>appendBack\<close> has
  numbered the blocks anew and spliced new blocks in. The loop of \<open>appendBack\<close> that
  numbers the blocks runs over the blocks that are in the buffer before the new blocks
  are spliced in; the new blocks keep what the \<open>id\<close> field of their chunk held, and
  the constructor of \<open>BlockBase\<close> initialises nothing. On an empty buffer, with an
  allocator that hands out two chunks whose \<open>id\<close> fields hold 1 and 0,
  \<open>appendBack(9)\<close> returns and leaves two blocks with the ids 1 and 0. The
  \<open>begin()\<close> taken then (handle 1) is at position 0 and the \<open>end()\<close> (handle 2) at
  position 9, \<open>begin()\<close> precedes \<open>end()\<close> in the iterator list, and yet
  \<open>end() < begin()\<close> holds and \<open>begin() < end()\<close> does not.
\<close>

theorem appendBack_leaves_stale_ids:
  "appendBack 8 stale_pool buf_empty 9 5
     = (Inr (itr_at 300 0), buf_stale\<lparr>m_iterators := [(5, itr_at 300 0)]\<rparr>, [])
   \<and> begin_it (buf_stale\<lparr>m_iterators := [(5, itr_at 300 0)]\<rparr>) 1
       = Inr (buf_stale\<lparr>m_iterators := [(1, itr_at 300 0), (5, itr_at 300 0)]\<rparr>)
   \<and> end_it (buf_stale\<lparr>m_iterators := [(1, itr_at 300 0), (5, itr_at 300 0)]\<rparr>) 2
       = Inr buf_stale
   \<and> map_of (m_iterators buf_stale) 1 = Some (itr_at 300 0)
   \<and> map_of (m_iterators buf_stale) 2 = Some (itr_at 400 1)
   \<and> position 8 buf_stale (itr_at 300 0) = 0
   \<and> position 8 buf_stale (itr_at 400 1) = 9
   \<and> precedes (m_iterators buf_stale) 1 2
   \<and> iterator_less (m_blocks buf_stale) (itr_at 300 0) (itr_at 400 1) = Some False
   \<and> iterator_less (m_blocks buf_stale) (itr_at 400 1) (itr_at 300 0) = Some True"
  by (simp add: appendBack_def appendBack_body_def stale_pool_def buf_empty_def buf_stale_def
      newBlocks_step newBlocks_done new_iterator_def blk_def itr_at_def begin_it_def end_it_def
      iterator_less_def block_id_def blocks_from_def blocks_upto_def ptr_less_def
      iterator_ok_def position_def precedes_def iters_upto_def)

section \<open>processResponse\<close>





























text \<open>
  What the defect of \<open>has\<close> does to \<open>processResponse\<close>: in \<open>conn_last\<close> three bytes lie
  between \<open>endDecoded\<close> and \<open>end()\<close>, \<open>has(endDecoded, 5)\<close> holds all the same, and
  with a decoder that reports an empty frame the call returns \<open>DECODE_SUCC\<close> and leaves
  \<open>endDecoded\<close> at offset 7, behind \<open>m_end\<close>.
\<close>

lemma processResponse_accepts_short_input:
  "map_of (m_iterators (inBuf conn_last)) (endDecoded conn_last) = Some (itr_at 100 2)
   \<and> bytes_to_end 8 (inBuf conn_last) (itr_at 100 2) = 3
   \<and> has 8 (inBuf conn_last) (itr_at 100 2) MP_RESPONSE_SIZE = Inr True
   \<and> (case processResponse (dec_stub 0 0 7) 8 conn_last None of
         Inl err \<Rightarrow> False
       | Inr (status, conn', out) \<Rightarrow>
           status = DECODE_SUCC
           \<and> map_of (m_iterators (inBuf conn')) (endDecoded conn') = Some (itr_at 100 7)
           \<and> m_end (inBuf conn') = 5)"
  by code_simp

text \<open>
  The connection as its constructor leaves it: the input buffer has no block and
  \<open>endDecoded\<close> is the \<open>begin()\<close> of that buffer, an iterator of the list head.
  \<open>has(endDecoded, 5)\<close> holds although no byte is there, and with a decoder that
  reports an empty frame the call returns \<open>DECODE_SUCC\<close> and adds 5 to the position of
  \<open>endDecoded\<close>.
\<close>

lemma processResponse_without_blocks:
  "begin_it buf_empty 1 = Inr (inBuf conn_new)
   \<and> map_of (m_iterators (inBuf conn_new)) (endDecoded conn_new) = Some (itr_at list_head 0)
   \<and> has 8 (inBuf conn_new) (itr_at list_head 0) MP_RESPONSE_SIZE = Inr True
   \<and> (case processResponse (dec_stub 0 0 7) 8 conn_new None of
         Inl err \<Rightarrow> False
       | Inr (status, conn', out) \<Rightarrow>
           status = DECODE_SUCC
           \<and> map_of (m_iterators (inBuf conn')) (endDecoded conn') = Some (itr_at list_head 5)
           \<and> m_blocks (inBuf conn') = [])"
  by code_simp

end
